theory Spec2Isabelle
  imports Complex_Main "HOL-Library.Word" "HOL-Library.Multiset"
begin

section \<open>Pixel data\<close>

text \<open>
  The \<^verbatim>\<open>data\<close> array of an \<^verbatim>\<open>ImageData\<close> is a \<^verbatim>\<open>Uint8ClampedArray\<close>: a flat
  array of bytes, four per pixel, row-major. Reading it outside its range gives
  \<^verbatim>\<open>undefined\<close> (here \<open>None\<close>), writing outside its range is ignored.
\<close>

type_synonym byte = "8 word"

text \<open>A colour read from the array: each channel is a byte or \<^verbatim>\<open>undefined\<close>.\<close>

type_synonym color = "byte option \<times> byte option \<times> byte option \<times> byte option"

text \<open>
  The fill colour \<^verbatim>\<open>[r, g, b, a]\<close>. Its only producer is \<^verbatim>\<open>hexToRgba\<close> applied to the
  value of the colour input, so each channel is a byte.
\<close>

type_synonym rgba = "byte \<times> byte \<times> byte \<times> byte"

definition data_get :: "byte list \<Rightarrow> int \<Rightarrow> byte option" where
  "data_get data i = (if 0 \<le> i \<and> i < int (length data) then Some (data ! nat i) else None)"

definition data_set :: "byte list \<Rightarrow> int \<Rightarrow> byte \<Rightarrow> byte list" where
  "data_set data i v = (if 0 \<le> i \<and> i < int (length data) then data[nat i := v] else data)"

definition numbers :: "rgba \<Rightarrow> color" where
  "numbers c = (case c of (r, g, b, a) \<Rightarrow> (Some r, Some g, Some b, Some a))"

section \<open>Flood fill\<close>

definition getPixelColor :: "nat \<Rightarrow> byte list \<Rightarrow> int \<Rightarrow> int \<Rightarrow> color" where
  "getPixelColor canvasWidth data px py =
     (let idx = (py * int canvasWidth + px) * 4
      in (data_get data idx, data_get data (idx + 1), data_get data (idx + 2),
          data_get data (idx + 3)))"

fun colorsMatch :: "color \<Rightarrow> color \<Rightarrow> bool" where
  "colorsMatch (a0, a1, a2, a3) (b0, b1, b2, b3) = (a0 = b0 \<and> a1 = b1 \<and> a2 = b2 \<and> a3 = b3)"

definition paintPixel :: "byte list \<Rightarrow> int \<Rightarrow> rgba \<Rightarrow> byte list" where
  "paintPixel data idx fillColor =
     (case fillColor of (f0, f1, f2, f3) \<Rightarrow>
        data_set (data_set (data_set (data_set data idx f0) (idx + 1) f1) (idx + 2) f2)
          (idx + 3) f3)"

text \<open>
  The \<^verbatim>\<open>while (queue.length > 0)\<close> loop of \<^verbatim>\<open>fillFlood\<close>. The queue is a FIFO:
  \<^verbatim>\<open>shift\<close> takes the head, \<^verbatim>\<open>push\<close> appends. The loop need not end (it does not when
  the fill colour equals the target colour), so not returning is the value \<open>None\<close>.
\<close>

partial_function (option) fill_loop ::
  "nat \<Rightarrow> nat \<Rightarrow> color \<Rightarrow> rgba \<Rightarrow> byte list \<Rightarrow> (int \<times> int) list \<Rightarrow> byte list option" where
  "fill_loop canvasWidth canvasHeight targetColor fillColor data queue =
     (case queue of
        [] \<Rightarrow> Some data
      | c # rest \<Rightarrow>
          (let cx = fst c; cy = snd c in
           if cx < 0 \<or> cx \<ge> int canvasWidth \<or> cy < 0 \<or> cy \<ge> int canvasHeight
           then fill_loop canvasWidth canvasHeight targetColor fillColor data rest
           else
             (let idx = (cy * int canvasWidth + cx) * 4;
                  currentColor = (data_get data idx, data_get data (idx + 1),
                                  data_get data (idx + 2), data_get data (idx + 3))
              in if colorsMatch currentColor targetColor
                 then fill_loop canvasWidth canvasHeight targetColor fillColor
                        (paintPixel data idx fillColor)
                        (rest @ [(cx - 1, cy), (cx + 1, cy), (cx, cy - 1), (cx, cy + 1)])
                 else fill_loop canvasWidth canvasHeight targetColor fillColor data rest)))"

declare fill_loop.simps [code]

text \<open>
  \<^verbatim>\<open>fillFlood\<close> on the pixels of a canvas of the given size: the result is the array
  handed to \<^verbatim>\<open>putImageData\<close> (the array as it was, when the function returns early).
\<close>

definition fillFlood :: "nat \<Rightarrow> nat \<Rightarrow> byte list \<Rightarrow> int \<Rightarrow> int \<Rightarrow> rgba \<Rightarrow> byte list option" where
  "fillFlood canvasWidth canvasHeight data x y fillColor =
     (let targetColor = getPixelColor canvasWidth data x y
      in if colorsMatch targetColor (numbers fillColor) then Some data
         else fill_loop canvasWidth canvasHeight targetColor fillColor data [(x, y)])"

text \<open>
  The same loop with a trace: one entry for each iteration, holding the coordinate taken
  from the queue and whether that pixel was recoloured. The trace is never read; it
  serves to say how often a pixel is recoloured and how many iterations there are.
\<close>

partial_function (option) fill_loop_trace ::
  "nat \<Rightarrow> nat \<Rightarrow> color \<Rightarrow> rgba \<Rightarrow> byte list \<Rightarrow> (int \<times> int) list \<Rightarrow> ((int \<times> int) \<times> bool) list
     \<Rightarrow> (byte list \<times> ((int \<times> int) \<times> bool) list) option" where
  "fill_loop_trace canvasWidth canvasHeight targetColor fillColor data queue trace =
     (case queue of
        [] \<Rightarrow> Some (data, trace)
      | c # rest \<Rightarrow>
          (let cx = fst c; cy = snd c in
           if cx < 0 \<or> cx \<ge> int canvasWidth \<or> cy < 0 \<or> cy \<ge> int canvasHeight
           then fill_loop_trace canvasWidth canvasHeight targetColor fillColor data rest
                  (trace @ [((cx, cy), False)])
           else
             (let idx = (cy * int canvasWidth + cx) * 4;
                  currentColor = (data_get data idx, data_get data (idx + 1),
                                  data_get data (idx + 2), data_get data (idx + 3))
              in if colorsMatch currentColor targetColor
                 then fill_loop_trace canvasWidth canvasHeight targetColor fillColor
                        (paintPixel data idx fillColor)
                        (rest @ [(cx - 1, cy), (cx + 1, cy), (cx, cy - 1), (cx, cy + 1)])
                        (trace @ [((cx, cy), True)])
                 else fill_loop_trace canvasWidth canvasHeight targetColor fillColor data rest
                        (trace @ [((cx, cy), False)]))))"

declare fill_loop_trace.simps [code]

definition fillFlood_trace ::
  "nat \<Rightarrow> nat \<Rightarrow> byte list \<Rightarrow> int \<Rightarrow> int \<Rightarrow> rgba
     \<Rightarrow> (byte list \<times> ((int \<times> int) \<times> bool) list) option" where
  "fillFlood_trace canvasWidth canvasHeight data x y fillColor =
     (let targetColor = getPixelColor canvasWidth data x y
      in if colorsMatch targetColor (numbers fillColor) then Some (data, [])
         else fill_loop_trace canvasWidth canvasHeight targetColor fillColor data [(x, y)] [])"

text \<open>The pixels recoloured during a run, in order, and the coordinates dequeued.\<close>

definition painted :: "((int \<times> int) \<times> bool) list \<Rightarrow> (int \<times> int) list" where
  "painted trace = map fst (filter snd trace)"

definition dequeued :: "((int \<times> int) \<times> bool) list \<Rightarrow> (int \<times> int) list" where
  "dequeued trace = map fst trace"

text \<open>
  The words of the specification: a coordinate inside the buffer, the four neighbours
  of a coordinate, and the 4-connected closure of the pixels that have exactly the
  seed's colour, starting from the seed.
\<close>

definition inBounds :: "nat \<Rightarrow> nat \<Rightarrow> int \<times> int \<Rightarrow> bool" where
  "inBounds w h p \<longleftrightarrow> 0 \<le> fst p \<and> fst p < int w \<and> 0 \<le> snd p \<and> snd p < int h"

definition neighbours :: "int \<times> int \<Rightarrow> (int \<times> int) list" where
  "neighbours p = [(fst p - 1, snd p), (fst p + 1, snd p), (fst p, snd p - 1), (fst p, snd p + 1)]"

definition pixelAt :: "nat \<Rightarrow> byte list \<Rightarrow> int \<times> int \<Rightarrow> color" where
  "pixelAt w data p = getPixelColor w data (fst p) (snd p)"

inductive_set region :: "nat \<Rightarrow> nat \<Rightarrow> byte list \<Rightarrow> int \<times> int \<Rightarrow> (int \<times> int) set"
  for w :: nat and h :: nat and data :: "byte list" and seed :: "int \<times> int" where
  seed: "inBounds w h seed \<Longrightarrow> seed \<in> region w h data seed"
| step: "p \<in> region w h data seed \<Longrightarrow> q \<in> set (neighbours p) \<Longrightarrow> inBounds w h q
         \<Longrightarrow> pixelAt w data q = pixelAt w data seed \<Longrightarrow> q \<in> region w h data seed"

text \<open>
  One iteration of the loop as a function on (data, queue, trace), for the proofs, with
  the byte index \<^verbatim>\<open>idx\<close> of a pixel.
\<close>

definition pixelIndex :: "nat \<Rightarrow> int \<times> int \<Rightarrow> int" where
  "pixelIndex w c = (snd c * int w + fst c) * 4"

definition fill_step ::
  "nat \<Rightarrow> nat \<Rightarrow> color \<Rightarrow> rgba
     \<Rightarrow> byte list \<times> (int \<times> int) list \<times> ((int \<times> int) \<times> bool) list
     \<Rightarrow> byte list \<times> (int \<times> int) list \<times> ((int \<times> int) \<times> bool) list" where
  "fill_step w h targetColor fillColor st =
     (case st of
        (data, [], trace) \<Rightarrow> st
      | (data, c # rest, trace) \<Rightarrow>
          if \<not> inBounds w h c then (data, rest, trace @ [(c, False)])
          else if pixelAt w data c = targetColor
          then (paintPixel data (pixelIndex w c) fillColor,
                rest @ neighbours c, trace @ [(c, True)])
          else (data, rest, trace @ [(c, False)]))"

text \<open>
  For the proofs: the pixel number of a coordinate, the pixels that still have the target
  colour, and the two invariants of the loop. The first counts: every iteration so far
  is in the trace, every recoloured pixel has the fill colour and was recoloured once,
  and a coordinate was enqueued once for each recoloured neighbour (and once more if it
  is the seed). The second relates the recoloured pixels to the region of the seed.
\<close>

definition offset :: "nat \<Rightarrow> int \<times> int \<Rightarrow> nat" where
  "offset w p = nat (snd p * int w + fst p)"

definition matching :: "nat \<Rightarrow> nat \<Rightarrow> color \<Rightarrow> byte list \<Rightarrow> (int \<times> int) set" where
  "matching w h T d = {p. inBounds w h p \<and> pixelAt w d p = T}"

definition count_inv ::
  "nat \<Rightarrow> nat \<Rightarrow> int \<times> int \<Rightarrow> rgba
     \<Rightarrow> byte list \<times> (int \<times> int) list \<times> ((int \<times> int) \<times> bool) list \<Rightarrow> bool" where
  "count_inv w h seed F st =
     (case st of (d, q, tr) \<Rightarrow>
        length tr + length q = 1 + 4 * length (painted tr)
        \<and> distinct (painted tr)
        \<and> (\<forall>p \<in> set (painted tr). inBounds w h p \<and> pixelAt w d p = numbers F)
        \<and> (\<forall>c. count_list (dequeued tr) c + count_list q c
                 = (if c = seed then 1 else 0)
                   + length (filter (\<lambda>p. c \<in> set (neighbours p)) (painted tr))))"

definition region_inv ::
  "nat \<Rightarrow> nat \<Rightarrow> byte list \<Rightarrow> int \<times> int \<Rightarrow> rgba
     \<Rightarrow> byte list \<times> (int \<times> int) list \<times> ((int \<times> int) \<times> bool) list \<Rightarrow> bool" where
  "region_inv w h D seed F st =
     (case st of (d, q, tr) \<Rightarrow>
        (\<forall>p. inBounds w h p
              \<longrightarrow> pixelAt w d p = (if p \<in> set (painted tr) then numbers F else pixelAt w D p))
        \<and> set (painted tr) \<subseteq> region w h D seed
        \<and> (\<forall>c \<in> set q. c = seed \<or> (\<exists>p \<in> set (painted tr). c \<in> set (neighbours p)))
        \<and> (seed \<in> set (painted tr) \<or> seed \<in> set q)
        \<and> (\<forall>p \<in> set (painted tr). \<forall>n \<in> set (neighbours p).
              n \<in> region w h D seed \<longrightarrow> n \<in> set (painted tr) \<or> n \<in> set q))"

section \<open>Flood fill on JavaScript numbers\<close>

text \<open>
  The parameters \<^verbatim>\<open>x\<close> and \<^verbatim>\<open>y\<close> of \<^verbatim>\<open>fillFlood\<close> have type \<^verbatim>\<open>number\<close>, and
  \<^verbatim>\<open>startDrawing\<close> passes \<^verbatim>\<open>Math.floor\<close> of a coordinate: an integer, or \<^verbatim>\<open>NaN\<close>,
  \<^verbatim>\<open>Infinity\<close> or \<^verbatim>\<open>-Infinity\<close> (the scale \<^verbatim>\<open>canvas.width / rect.width\<close> is
  \<^verbatim>\<open>Infinity\<close> for a bounding rectangle of width 0, and \<^verbatim>\<open>0 * Infinity\<close> is \<^verbatim>\<open>NaN\<close>).
  The definitions above take the seed to be an integer. Here is the same function on
  these numbers, with the comparisons and the arithmetic of JavaScript: a comparison
  with \<^verbatim>\<open>NaN\<close> is false, arithmetic with \<^verbatim>\<open>NaN\<close> gives \<^verbatim>\<open>NaN\<close>. Integers are exact
  (a double is, up to \<open>2\<^sup>5\<^sup>3\<close>, far beyond the indices of a canvas).
\<close>

datatype number = Finite int | NaN | PlusInfinity | MinusInfinity

fun number_less :: "number \<Rightarrow> number \<Rightarrow> bool" where
  "number_less (Finite a) (Finite b) = (a < b)"
| "number_less NaN _ = False"
| "number_less _ NaN = False"
| "number_less MinusInfinity b = (b \<noteq> MinusInfinity)"
| "number_less (Finite a) b = (b = PlusInfinity)"
| "number_less PlusInfinity _ = False"

fun number_ge :: "number \<Rightarrow> number \<Rightarrow> bool" where
  "number_ge (Finite a) (Finite b) = (a \<ge> b)"
| "number_ge NaN _ = False"
| "number_ge _ NaN = False"
| "number_ge PlusInfinity _ = True"
| "number_ge (Finite a) b = (b = MinusInfinity)"
| "number_ge MinusInfinity b = (b = MinusInfinity)"

fun number_plus :: "number \<Rightarrow> number \<Rightarrow> number" where
  "number_plus (Finite a) (Finite b) = Finite (a + b)"
| "number_plus NaN _ = NaN"
| "number_plus _ NaN = NaN"
| "number_plus PlusInfinity b = (if b = MinusInfinity then NaN else PlusInfinity)"
| "number_plus MinusInfinity b = (if b = PlusInfinity then NaN else MinusInfinity)"
| "number_plus (Finite a) b = b"

fun number_negate :: "number \<Rightarrow> number" where
  "number_negate (Finite a) = Finite (- a)"
| "number_negate NaN = NaN"
| "number_negate PlusInfinity = MinusInfinity"
| "number_negate MinusInfinity = PlusInfinity"

definition number_minus :: "number \<Rightarrow> number \<Rightarrow> number" where
  "number_minus a b = number_plus a (number_negate b)"

fun number_times :: "number \<Rightarrow> number \<Rightarrow> number" where
  "number_times (Finite a) (Finite b) = Finite (a * b)"
| "number_times NaN _ = NaN"
| "number_times _ NaN = NaN"
| "number_times (Finite a) b =
     (if a = 0 then NaN else if a > 0 then b else number_negate b)"
| "number_times a (Finite b) =
     (if b = 0 then NaN else if b > 0 then a else number_negate a)"
| "number_times a b = (if a = b then PlusInfinity else MinusInfinity)"

text \<open>
  Indexing the \<^verbatim>\<open>Uint8ClampedArray\<close> by a number: an index that is not an integer
  inside the array reads \<^verbatim>\<open>undefined\<close>, and a write there is ignored.
\<close>

fun data_get_number :: "byte list \<Rightarrow> number \<Rightarrow> byte option" where
  "data_get_number data (Finite i) = data_get data i"
| "data_get_number data _ = None"

fun data_set_number :: "byte list \<Rightarrow> number \<Rightarrow> byte \<Rightarrow> byte list" where
  "data_set_number data (Finite i) v = data_set data i v"
| "data_set_number data _ v = data"

definition getPixelColor_number :: "nat \<Rightarrow> byte list \<Rightarrow> number \<Rightarrow> number \<Rightarrow> color" where
  "getPixelColor_number canvasWidth data px py =
     (let idx = number_times (number_plus (number_times py (Finite (int canvasWidth))) px) (Finite 4)
      in (data_get_number data idx, data_get_number data (number_plus idx (Finite 1)),
          data_get_number data (number_plus idx (Finite 2)),
          data_get_number data (number_plus idx (Finite 3))))"

definition paintPixel_number :: "byte list \<Rightarrow> number \<Rightarrow> rgba \<Rightarrow> byte list" where
  "paintPixel_number data idx fillColor =
     (case fillColor of (f0, f1, f2, f3) \<Rightarrow>
        data_set_number
          (data_set_number
             (data_set_number (data_set_number data idx f0) (number_plus idx (Finite 1)) f1)
             (number_plus idx (Finite 2)) f2)
          (number_plus idx (Finite 3)) f3)"

partial_function (option) fill_loop_number ::
  "nat \<Rightarrow> nat \<Rightarrow> color \<Rightarrow> rgba \<Rightarrow> byte list \<Rightarrow> (number \<times> number) list \<Rightarrow> byte list option" where
  "fill_loop_number canvasWidth canvasHeight targetColor fillColor data queue =
     (case queue of
        [] \<Rightarrow> Some data
      | c # rest \<Rightarrow>
          (let cx = fst c; cy = snd c in
           if number_less cx (Finite 0) \<or> number_ge cx (Finite (int canvasWidth))
              \<or> number_less cy (Finite 0) \<or> number_ge cy (Finite (int canvasHeight))
           then fill_loop_number canvasWidth canvasHeight targetColor fillColor data rest
           else
             (let idx = number_times
                          (number_plus (number_times cy (Finite (int canvasWidth))) cx) (Finite 4);
                  currentColor =
                    (data_get_number data idx, data_get_number data (number_plus idx (Finite 1)),
                     data_get_number data (number_plus idx (Finite 2)),
                     data_get_number data (number_plus idx (Finite 3)))
              in if colorsMatch currentColor targetColor
                 then fill_loop_number canvasWidth canvasHeight targetColor fillColor
                        (paintPixel_number data idx fillColor)
                        (rest @ [(number_minus cx (Finite 1), cy), (number_plus cx (Finite 1), cy),
                                 (cx, number_minus cy (Finite 1)), (cx, number_plus cy (Finite 1))])
                 else fill_loop_number canvasWidth canvasHeight targetColor fillColor data rest)))"

declare fill_loop_number.simps [code]

definition fillFlood_number ::
  "nat \<Rightarrow> nat \<Rightarrow> byte list \<Rightarrow> number \<Rightarrow> number \<Rightarrow> rgba \<Rightarrow> byte list option" where
  "fillFlood_number canvasWidth canvasHeight data x y fillColor =
     (let targetColor = getPixelColor_number canvasWidth data x y
      in if colorsMatch targetColor (numbers fillColor) then Some data
         else fill_loop_number canvasWidth canvasHeight targetColor fillColor data [(x, y)])"

text \<open>An integer coordinate as a pair of numbers.\<close>

definition finite_coord :: "int \<times> int \<Rightarrow> number \<times> number" where
  "finite_coord p = (Finite (fst p), Finite (snd p))"

section \<open>JavaScript numbers\<close>

text \<open>
  A JavaScript number is an IEEE 754 binary64 value. The random draws and the velocities
  computed from them are modelled by the reals they denote, and an arithmetic operation on
  them gives the binary64 value nearest to the exact result, a tie going to the even
  significand: \<open>double\<close> of the exact result. A finite binary64 value other than zero is
  \<open>k * 2\<^sup>e\<^sup>-\<^sup>5\<^sup>2\<close> for an integer \<open>k\<close> of at most 53 bits and an exponent \<open>e\<close> of at
  least \<open>-1022\<close> (the subnormal numbers have \<open>e = -1022\<close>). The numbers here stay far
  below \<open>2\<^sup>1\<^sup>0\<^sup>2\<^sup>4\<close>, where rounding would give \<^verbatim>\<open>Infinity\<close>; the sign of zero is not
  modelled.
\<close>

definition rne :: "real \<Rightarrow> int" where
  "rne x = (let n = \<lfloor>x\<rfloor>; d = x - of_int n
            in if d < 1 / 2 then n else if d > 1 / 2 then n + 1
               else if even n then n else n + 1)"

definition exponent :: "real \<Rightarrow> int" where
  "exponent x = max \<lfloor>log 2 x\<rfloor> (- 1022)"

definition ulp :: "real \<Rightarrow> real" where
  "ulp x = 2 powr (of_int (exponent x) - 52)"

definition round_pos :: "real \<Rightarrow> real" where
  "round_pos x = of_int (rne (x / ulp x)) * ulp x"

definition double :: "real \<Rightarrow> real" where
  "double x = (if x = 0 then 0 else if x < 0 then - round_pos (- x) else round_pos x)"

definition times_double :: "real \<Rightarrow> real \<Rightarrow> real" where
  "times_double a b = double (a * b)"

definition plus_double :: "real \<Rightarrow> real \<Rightarrow> real" where
  "plus_double a b = double (a + b)"

definition minus_double :: "real \<Rightarrow> real \<Rightarrow> real" where
  "minus_double a b = double (a - b)"

text \<open>What \<^verbatim>\<open>Math.random()\<close> returns: a number that is at least 0 and less than 1.\<close>

definition randomDraw :: "real \<Rightarrow> bool" where
  "randomDraw r \<longleftrightarrow> 0 \<le> r \<and> r < 1 \<and> double r = r"

text \<open>
  A coordinate in the column \<^verbatim>\<open>NaN\<close> that the bounds test of the loop lets through: its
  \<^verbatim>\<open>y\<close> is neither below 0 nor at least the height (an integer row of the canvas, or
  \<^verbatim>\<open>NaN\<close>).
\<close>

definition stuck :: "nat \<Rightarrow> number \<times> number \<Rightarrow> bool" where
  "stuck h c \<longleftrightarrow>
     fst c = NaN \<and> \<not> number_less (snd c) (Finite 0) \<and> \<not> number_ge (snd c) (Finite (int h))"

section \<open>The application state\<close>

text \<open>
  The canvas element: its size and its pixels. \<^verbatim>\<open>getImageData(0, 0, width, height)\<close>
  copies the pixels, \<^verbatim>\<open>putImageData(imageData, 0, 0)\<close> with a whole-canvas image replaces
  them; an \<^verbatim>\<open>ImageData\<close> of the whole canvas is represented by its \<^verbatim>\<open>data\<close> array.
\<close>

record canvas =
  cv_width :: nat
  cv_height :: nat
  pixels :: "byte list"

datatype tool = pen | fill | eraser

text \<open>
  The refs and the React state of \<^verbatim>\<open>App\<close>. \<open>canvasRef\<close> is \<open>None\<close> while the ref is
  \<^verbatim>\<open>null\<close>. \<open>color\<close> holds the pen colour as the RGBA that \<^verbatim>\<open>hexToRgba\<close> gives for it.
  \<open>spoken\<close> logs the index of each phrase handed to \<^verbatim>\<open>synth.speak\<close>.
\<close>

record app =
  canvasRef :: "canvas option"
  offscreenCanvasRef :: "canvas option"
  isDrawing :: bool
  position :: "real \<times> real"
  animating :: bool
  color :: rgba
  lineWidth :: nat
  mode :: tool
  historyRef :: "byte list list"
  historyIndexRef :: int
  imgPosRef :: "real \<times> real \<times> real"
  velocityRef :: "real \<times> real \<times> real"
  spoken :: "nat list"

definition CANVAS_WIDTH :: nat where
  "CANVAS_WIDTH = 600"

definition CANVAS_HEIGHT :: nat where
  "CANVAS_HEIGHT = 400"

text \<open>
  \<^verbatim>\<open>clearRect\<close> over the whole canvas, then \<^verbatim>\<open>fillStyle = 'white'\<close> and \<^verbatim>\<open>fillRect\<close>
  over the whole canvas: every pixel is opaque white.
\<close>

definition fillWhite :: "canvas \<Rightarrow> canvas" where
  "fillWhite c = c\<lparr>pixels := replicate (cv_width c * cv_height c * 4) 255\<rparr>"

definition putImageData :: "canvas \<Rightarrow> byte list \<Rightarrow> canvas" where
  "putImageData c imageData = c\<lparr>pixels := imageData\<rparr>"

text \<open>\<^verbatim>\<open>xs[i]\<close> on a JavaScript array: \<^verbatim>\<open>undefined\<close> outside the range.\<close>

definition array_get :: "'a list \<Rightarrow> int \<Rightarrow> 'a option" where
  "array_get xs i = (if 0 \<le> i \<and> i < int (length xs) then Some (xs ! nat i) else None)"

text \<open>\<^verbatim>\<open>xs.slice(0, end)\<close>: a negative \<^verbatim>\<open>end\<close> counts from the end of the array.\<close>

definition slice0 :: "'a list \<Rightarrow> int \<Rightarrow> 'a list" where
  "slice0 xs e = (if e < 0 then take (nat (int (length xs) + e)) xs else take (nat e) xs)"

section \<open>History: snapshot, undo, redo\<close>

definition saveHistory :: "app \<Rightarrow> app" where
  "saveHistory s =
     (case canvasRef s of
        None \<Rightarrow> s
      | Some canvas \<Rightarrow>
          (let imageData = pixels canvas;
               kept = (if historyIndexRef s < int (length (historyRef s)) - 1
                       then slice0 (historyRef s) (historyIndexRef s + 1)
                       else historyRef s);
               pushed = kept @ [imageData]
           in if length pushed > 20
              then s\<lparr>historyRef := tl pushed\<rparr>
              else s\<lparr>historyRef := pushed, historyIndexRef := historyIndexRef s + 1\<rparr>))"

definition undo :: "app \<Rightarrow> app" where
  "undo s =
     (case canvasRef s of
        None \<Rightarrow> s
      | Some canvas \<Rightarrow>
          if historyIndexRef s \<le> 0
          then s\<lparr>canvasRef := Some (fillWhite canvas), historyIndexRef := - 1\<rparr>
          else
            (let i = historyIndexRef s - 1
             in case array_get (historyRef s) i of
                  None \<Rightarrow> s\<lparr>historyIndexRef := i\<rparr>
                | Some imageData \<Rightarrow>
                    s\<lparr>canvasRef := Some (putImageData canvas imageData),
                      historyIndexRef := i\<rparr>))"

definition redo :: "app \<Rightarrow> app" where
  "redo s =
     (if historyIndexRef s \<ge> int (length (historyRef s)) - 1 then s
      else case canvasRef s of
        None \<Rightarrow> s
      | Some canvas \<Rightarrow>
          (let i = historyIndexRef s + 1
           in case array_get (historyRef s) i of
                None \<Rightarrow> s\<lparr>historyIndexRef := i\<rparr>
              | Some imageData \<Rightarrow>
                  s\<lparr>canvasRef := Some (putImageData canvas imageData),
                    historyIndexRef := i\<rparr>))"

section \<open>Drawing\<close>

text \<open>
  The pointer handlers, at the canvas coordinates that \<^verbatim>\<open>getCanvasRelativePosition\<close>
  gives for the event when they are finite, as they are for a bounding rectangle that is
  not empty (\<open>fillFlood_number\<close> is the fill at the other seeds). In fill mode the flood
  fill may not return; then there is no next state.
\<close>

definition startDrawing :: "real \<Rightarrow> real \<Rightarrow> app \<Rightarrow> app option" where
  "startDrawing x y s =
     (if animating s then Some s
      else case canvasRef s of
        None \<Rightarrow> Some s
      | Some canvas \<Rightarrow>
          if mode s = fill
          then
            (let s1 = saveHistory s
             in map_option (\<lambda>data. s1\<lparr>canvasRef := Some (putImageData canvas data)\<rparr>)
                  (fillFlood (cv_width canvas) (cv_height canvas) (pixels canvas)
                     \<lfloor>x\<rfloor> \<lfloor>y\<rfloor> (color s)))
          else Some ((saveHistory s)\<lparr>position := (x, y), isDrawing := True\<rparr>))"

text \<open>
  \<^verbatim>\<open>draw\<close> strokes a line segment with the canvas API; \<open>rendered\<close> is the pixel
  array of the canvas after \<^verbatim>\<open>ctx.stroke()\<close>.
\<close>

definition draw :: "real \<Rightarrow> real \<Rightarrow> byte list \<Rightarrow> app \<Rightarrow> app" where
  "draw x y rendered s =
     (if \<not> isDrawing s then s
      else if animating s then s
      else case canvasRef s of
        None \<Rightarrow> s
      | Some canvas \<Rightarrow> s\<lparr>canvasRef := Some (putImageData canvas rendered), position := (x, y)\<rparr>)"

definition stopDrawing :: "app \<Rightarrow> app" where
  "stopDrawing s = s\<lparr>isDrawing := False\<rparr>"

section \<open>Start-up and return to drawing\<close>

text \<open>
  The state when \<^verbatim>\<open>App\<close> is first rendered, for a mounted canvas element and the
  \<^verbatim>\<open>Math.random()\<close> draws of the initial velocity, and the mount effect that sizes
  the canvas, paints it white and seeds the history.
\<close>

definition initial :: "canvas option \<Rightarrow> real \<times> real \<times> real \<times> real \<Rightarrow> app" where
  "initial element draws =
     (case draws of (r1, r2, r3, r4) \<Rightarrow>
        \<lparr>canvasRef = element, offscreenCanvasRef = None, isDrawing = False,
         position = (0, 0), animating = False, color = (0, 0, 0, 255), lineWidth = 2,
         mode = pen, historyRef = [], historyIndexRef = - 1, imgPosRef = (0, 0, 0),
         velocityRef =
           (plus_double 4 (times_double r1 8), plus_double 4 (times_double r2 8),
            times_double (plus_double (times_double r3 (double 0.2)) (double 0.05))
              (if r4 > 0.5 then 1 else - 1)),
         spoken = []\<rparr>)"

definition setupCanvas :: "app \<Rightarrow> app" where
  "setupCanvas s =
     (case canvasRef s of
        None \<Rightarrow> s
      | Some canvas \<Rightarrow>
          (let sized = fillWhite (canvas\<lparr>cv_width := CANVAS_WIDTH, cv_height := CANVAS_HEIGHT\<rparr>)
           in s\<lparr>canvasRef := Some sized, historyRef := [pixels sized], historyIndexRef := 0\<rparr>))"

definition stopAnimation :: "app \<Rightarrow> app" where
  "stopAnimation s =
     (let s1 = s\<lparr>animating := False\<rparr>
      in case canvasRef s1 of
           None \<Rightarrow> s1
         | Some canvas \<Rightarrow>
             s1\<lparr>canvasRef := Some (fillWhite canvas), historyRef := [],
                historyIndexRef := - 1\<rparr>)"

text \<open>
  The application just after start-up in the reference deployment: a fresh canvas
  element (300 by 150, transparent) mounted, the mount effect run.
\<close>

definition startup :: app where
  "startup =
     setupCanvas (initial (Some \<lparr>cv_width = 300, cv_height = 150, pixels = replicate 180000 0\<rparr>)
              (0, 0, 0, 0))"

definition blank :: "byte list" where
  "blank = replicate (CANVAS_WIDTH * CANVAS_HEIGHT * 4) 255"

section \<open>The bouncing sprite\<close>

text \<open>
  The \<^verbatim>\<open>Math.random()\<close> draws of a call are an argument, in the order in which the call
  makes them, and the velocities are computed from them in binary64 arithmetic. In the
  frame update \<^verbatim>\<open>animate\<close> the numbers are the reals they denote and the sums and
  differences are taken exactly.
\<close>

definition scanPixel ::
  "byte list \<Rightarrow> nat \<Rightarrow> nat \<times> nat \<times> nat \<times> nat \<Rightarrow> nat \<Rightarrow> nat \<Rightarrow> nat \<times> nat \<times> nat \<times> nat" where
  "scanPixel data w box y x =
     (case box of (minX, minY, maxX, maxY) \<Rightarrow>
        (let idx = int ((y * w + x) * 4);
             r = data_get data idx; g = data_get data (idx + 1);
             b = data_get data (idx + 2); a = data_get data (idx + 3)
         in if \<not> (r = Some 255 \<and> g = Some 255 \<and> b = Some 255 \<and> a = Some 255)
            then (if x < minX then x else minX, if y < minY then y else minY,
                  if x > maxX then x else maxX, if y > maxY then y else maxY)
            else box))"

definition getDrawingBoundingBox ::
  "byte list \<Rightarrow> nat \<Rightarrow> nat \<Rightarrow> (nat \<times> nat \<times> nat \<times> nat) option" where
  "getDrawingBoundingBox data w h =
     (case foldl (\<lambda>box y. foldl (\<lambda>box x. scanPixel data w box y x) box [0..<w])
             (w, h, 0, 0) [0..<h] of
        (minX, minY, maxX, maxY) \<Rightarrow>
          if minX > maxX \<or> minY > maxY then None else Some (minX, minY, maxX, maxY))"

text \<open>\<^verbatim>\<open>ctx.getImageData(minX, minY, drawWidth, drawHeight)\<close> inside the canvas.\<close>

definition cropImage :: "canvas \<Rightarrow> nat \<Rightarrow> nat \<Rightarrow> nat \<Rightarrow> nat \<Rightarrow> byte list" where
  "cropImage c minX minY drawWidth drawHeight =
     concat (map (\<lambda>y. take (drawWidth * 4) (drop ((y * cv_width c + minX) * 4) (pixels c)))
               [minY..<minY + drawHeight])"

definition speakRandom :: "bool \<Rightarrow> real \<times> real \<times> real \<times> real \<times> real \<Rightarrow> app \<Rightarrow> app" where
  "speakRandom synth draws s =
     (if \<not> synth then s
      else case draws of (r0, r1, r2, r3, r4) \<Rightarrow>
        s\<lparr>spoken := spoken s @ [nat \<lfloor>times_double r0 8\<rfloor>],
          velocityRef :=
            (minus_double (times_double r1 12) 6, minus_double (times_double r2 12) 6,
             times_double (plus_double (times_double r3 (double 0.2)) (double 0.05))
               (if r4 > 0.5 then 1 else - 1))\<rparr>)"

definition startAnimation ::
  "bool \<Rightarrow> real \<times> real \<times> real \<times> real \<Rightarrow> real \<times> real \<times> real \<times> real \<times> real \<Rightarrow> app \<Rightarrow> app" where
  "startAnimation synth draws speechDraws s =
     (case canvasRef s of
        None \<Rightarrow> s
      | Some canvas \<Rightarrow>
          (case getDrawingBoundingBox (pixels canvas) (cv_width canvas) (cv_height canvas) of
             None \<Rightarrow> s
           | Some (minX, minY, maxX, maxY) \<Rightarrow>
               (let drawWidth = maxX - minX + 1;
                    drawHeight = maxY - minY + 1;
                    offCanvas = \<lparr>cv_width = drawWidth, cv_height = drawHeight,
                                 pixels = cropImage canvas minX minY drawWidth drawHeight\<rparr>
                in case draws of (r1, r2, r3, r4) \<Rightarrow>
                     speakRandom synth speechDraws
                       (s\<lparr>offscreenCanvasRef := Some offCanvas,
                          imgPosRef := (real (cv_width canvas) / 2, real (cv_height canvas) / 2, 0),
                          velocityRef :=
                            (minus_double (times_double r1 12) 6,
                             minus_double (times_double r2 12) 6,
                             times_double
                               (plus_double (times_double r3 (double 0.2)) (double 0.05))
                               (if r4 > 0.5 then 1 else - 1)),
                          animating := True\<rparr>))))"

text \<open>
  One frame of the animation effect; \<open>rendered\<close> is the pixel array of the canvas
  after the frame has been drawn with the canvas API.
\<close>

definition animate :: "byte list \<Rightarrow> app \<Rightarrow> app" where
  "animate rendered s =
     (if \<not> animating s then s
      else case (canvasRef s, offscreenCanvasRef s) of
        (Some canvas, Some offCanvas) \<Rightarrow>
          (case (imgPosRef s, velocityRef s) of
             ((x, y, rotation), (vx, vy, vr)) \<Rightarrow>
               (let imgWidth = real (cv_width offCanvas);
                    imgHeight = real (cv_height offCanvas);
                    x1 = x + vx;
                    y1 = y + vy;
                    rotation1 = rotation + vr;
                    (x2, vx2) =
                      (if x1 - imgWidth / 2 < 0 then (imgWidth / 2, - vx)
                       else if x1 + imgWidth / 2 > real (cv_width canvas)
                       then (real (cv_width canvas) - imgWidth / 2, - vx)
                       else (x1, vx));
                    (y2, vy2) =
                      (if y1 - imgHeight / 2 < 0 then (imgHeight / 2, - vy)
                       else if y1 + imgHeight / 2 > real (cv_height canvas)
                       then (real (cv_height canvas) - imgHeight / 2, - vy)
                       else (y1, vy))
                in s\<lparr>imgPosRef := (x2, y2, rotation1), velocityRef := (vx2, vy2, vr),
                     canvasRef := Some (putImageData canvas rendered)\<rparr>))
      | _ \<Rightarrow> s)"

section \<open>Runs of the application\<close>

datatype event =
  SaveHistory
  | Undo
  | Redo
  | StartDrawing real real
  | Draw real real "byte list"
  | StopDrawing
  | SetMode tool
  | SetColor rgba
  | SetLineWidth nat
  | StartAnimation bool "real \<times> real \<times> real \<times> real" "real \<times> real \<times> real \<times> real \<times> real"
  | SpeakRandom bool "real \<times> real \<times> real \<times> real \<times> real"
  | Animate "byte list"
  | StopAnimation

fun fire :: "event \<Rightarrow> app \<Rightarrow> app option" where
  "fire SaveHistory s = Some (saveHistory s)"
| "fire Undo s = Some (undo s)"
| "fire Redo s = Some (redo s)"
| "fire (StartDrawing x y) s = startDrawing x y s"
| "fire (Draw x y rendered) s = Some (draw x y rendered s)"
| "fire StopDrawing s = Some (stopDrawing s)"
| "fire (SetMode m) s = Some (s\<lparr>mode := m\<rparr>)"
| "fire (SetColor c) s = Some (s\<lparr>color := c\<rparr>)"
| "fire (SetLineWidth n) s = Some (s\<lparr>lineWidth := n\<rparr>)"
| "fire (StartAnimation synth draws speechDraws) s = Some (startAnimation synth draws speechDraws s)"
| "fire (SpeakRandom synth draws) s = Some (speakRandom synth draws s)"
| "fire (Animate rendered) s = Some (animate rendered s)"
| "fire StopAnimation s = Some (stopAnimation s)"

fun run :: "event list \<Rightarrow> app \<Rightarrow> app option" where
  "run [] s = Some s"
| "run (e # es) s = (case fire e s of None \<Rightarrow> None | Some s' \<Rightarrow> run es s')"

text \<open>The bounds on the history that every run keeps.\<close>

definition history_ok :: "app \<Rightarrow> bool" where
  "history_ok s \<longleftrightarrow>
     - 1 \<le> historyIndexRef s \<and> historyIndexRef s < int (length (historyRef s))
     \<and> length (historyRef s) \<le> 20"

text \<open>
  A sequence of snapshot pushes: the canvas is drawn to each buffer of the list in
  turn, and a snapshot is taken of each.
\<close>

definition withPixels :: "byte list \<Rightarrow> app \<Rightarrow> app" where
  "withPixels b s = s\<lparr>canvasRef := map_option (\<lambda>c. putImageData c b) (canvasRef s)\<rparr>"

fun pushes :: "byte list list \<Rightarrow> app \<Rightarrow> app" where
  "pushes [] s = s"
| "pushes (b # bs) s = pushes bs (saveHistory (withPixels b s))"

definition shown :: "app \<Rightarrow> byte list option" where
  "shown s = map_option pixels (canvasRef s)"

text \<open>
  A canvas after one pen stroke: white, with the pixels of rows 95 to 104 and columns
  100 to 200 opaque black.
\<close>

definition strokeExample :: "byte list" where
  "strokeExample =
     map (\<lambda>i. if i mod 4 \<noteq> 3 \<and> 100 \<le> (i div 4) mod 600 \<and> (i div 4) mod 600 \<le> 200
                  \<and> 95 \<le> (i div 4) div 600 \<and> (i div 4) div 600 \<le> 104
               then 0 else 255) [0..<960000]"

text \<open>
  A sequence of strokes or fills: before each, a snapshot is taken; then the canvas is
  drawn to the next buffer of the list.
\<close>

fun strokes :: "byte list list \<Rightarrow> app \<Rightarrow> app" where
  "strokes [] s = s"
| "strokes (b # bs) s = strokes bs (withPixels b (saveHistory s))"

text \<open>
  Buffers that differ from one another and from the blank canvas: opaque, with the value
  \<open>k\<close> in every colour channel. Then two states of the application: after three
  strokes from start-up, and after one stroke on the canvas that \<^verbatim>\<open>stopAnimation\<close> has
  cleared.
\<close>

definition frame :: "nat \<Rightarrow> byte list" where
  "frame k = map (\<lambda>i. if i mod 4 = 3 then 255 else of_nat k) [0..<960000]"

definition afterThree :: app where
  "afterThree = strokes [strokeExample, frame 2, frame 3] startup"

definition afterRestart :: app where
  "afterRestart = strokes [strokeExample] (stopAnimation startup)"


text \<open>
  The state after the pen stroke of \<open>strokeExample\<close> from start-up, and an animating
  state with a sprite of 100 by 50 pixels moving towards the right and top edges.
\<close>

definition drawn :: app where
  "drawn = stopDrawing (draw 200 100 strokeExample (the (startDrawing 100 100 startup)))"

definition bouncing :: app where
  "bouncing =
     startup\<lparr>animating := True,
             offscreenCanvasRef := Some \<lparr>cv_width = 100, cv_height = 50, pixels = replicate 20000 0\<rparr>,
             imgPosRef := (560, 20, 0), velocityRef := (5, - 3, 1 / 10)\<rparr>"

text \<open>
  The events of one pen stroke that leaves the buffer \<open>b\<close> on the canvas, and the state
  after twenty-five pen strokes from start-up, the \<open>k\<close>-th of which leaves \<open>frame k\<close>.
\<close>

definition strokeEvents :: "byte list \<Rightarrow> event list" where
  "strokeEvents b = [StartDrawing 100 100, Draw 200 100 b, StopDrawing]"

definition afterTwentyFive :: app where
  "afterTwentyFive = the (run (concat (map (\<lambda>k. strokeEvents (frame k)) [1..<26])) startup)"

text \<open>
  For the proofs about the bounding box: a pixel that is not opaque white, and a box
  that holds at least one pixel.
\<close>

definition nonWhite :: "byte list \<Rightarrow> nat \<Rightarrow> nat \<Rightarrow> nat \<Rightarrow> bool" where
  "nonWhite data w y x \<longleftrightarrow>
     \<not> (data_get data (int ((y * w + x) * 4)) = Some 255
        \<and> data_get data (int ((y * w + x) * 4) + 1) = Some 255
        \<and> data_get data (int ((y * w + x) * 4) + 2) = Some 255
        \<and> data_get data (int ((y * w + x) * 4) + 3) = Some 255)"

definition found :: "nat \<times> nat \<times> nat \<times> nat \<Rightarrow> bool" where
  "found box = (case box of (minX, minY, maxX, maxY) \<Rightarrow> minX \<le> maxX \<and> minY \<le> maxY)"

section \<open>Flood fill: the seed already has the fill colour\<close>

text \<open>
  C8. If the colour read at the seed equals the fill colour in all four channels,
  \<^verbatim>\<open>fillFlood\<close> returns at once and the buffer is unchanged, whatever the buffer and the
  seed coordinate.
\<close>

theorem fillFlood_same_colour_noop:
  "colorsMatch (getPixelColor w data x y) (numbers fillColor)
   \<Longrightarrow> fillFlood w h data x y fillColor = Some data"
  by (simp add: fillFlood_def)

theorem fillFlood_same_colour_noop_witness:
  "colorsMatch (getPixelColor 2 [255, 255, 255, 255, 0, 0, 0, 255] 1 0) (numbers (0, 0, 0, 255))
   \<and> fillFlood 2 1 [255, 255, 255, 255, 0, 0, 0, 255] 1 0 (0, 0, 0, 255)
       = Some [255, 255, 255, 255, 0, 0, 0, 255]"
proof -
  have seed:
    "colorsMatch (getPixelColor 2 [255, 255, 255, 255, 0, 0, 0, 255] 1 0) (numbers (0, 0, 0, 255))"
    by (simp add: getPixelColor_def data_get_def numbers_def)
  from fillFlood_same_colour_noop [OF seed, of 1] seed show ?thesis
    by simp
qed

section \<open>The history keeps its bounds\<close>

lemma saveHistory_ok: "history_ok s \<Longrightarrow> history_ok (saveHistory s)"
  by (auto simp: history_ok_def saveHistory_def slice0_def Let_def split: option.splits)

lemma undo_ok: "history_ok s \<Longrightarrow> history_ok (undo s)"
  by (auto simp: history_ok_def undo_def array_get_def Let_def split: option.splits)

lemma redo_ok: "history_ok s \<Longrightarrow> history_ok (redo s)"
  by (auto simp: history_ok_def redo_def array_get_def Let_def split: option.splits)

lemma stopAnimation_ok: "history_ok s \<Longrightarrow> history_ok (stopAnimation s)"
  by (auto simp: history_ok_def stopAnimation_def Let_def split: option.splits)

lemma startDrawing_ok: "history_ok s \<Longrightarrow> startDrawing x y s = Some s' \<Longrightarrow> history_ok s'"
  using saveHistory_ok [of s]
  by (auto simp: startDrawing_def Let_def history_ok_def split: option.splits if_splits)

lemma draw_ok: "history_ok s \<Longrightarrow> history_ok (draw x y r s)"
  by (auto simp: history_ok_def draw_def split: option.splits)

lemma speakRandom_ok: "history_ok s \<Longrightarrow> history_ok (speakRandom synth d s)"
  by (auto simp: history_ok_def speakRandom_def split: prod.splits)

lemma startAnimation_ok: "history_ok s \<Longrightarrow> history_ok (startAnimation synth d e s)"
  by (auto simp: startAnimation_def Let_def history_ok_def speakRandom_def split: option.splits prod.splits)

lemma animate_ok: "history_ok s \<Longrightarrow> history_ok (animate r s)"
  by (auto simp: animate_def Let_def history_ok_def split: option.splits prod.splits)

lemma fire_ok:
  assumes "history_ok s" "fire e s = Some s'"
  shows "history_ok s'"
proof (cases e)
  case (SetMode m)
  with assms show ?thesis by (auto simp: history_ok_def)
next
  case (SetColor c)
  with assms show ?thesis by (auto simp: history_ok_def)
next
  case (SetLineWidth n)
  with assms show ?thesis by (auto simp: history_ok_def)
next
  case StopDrawing
  with assms show ?thesis by (auto simp: history_ok_def stopDrawing_def)
qed (use assms in \<open>auto simp: saveHistory_ok undo_ok redo_ok stopAnimation_ok draw_ok
      startDrawing_ok speakRandom_ok startAnimation_ok animate_ok\<close>)

lemma run_ok: "history_ok s \<Longrightarrow> run es s = Some s' \<Longrightarrow> history_ok s'"
  by (induction es arbitrary: s) (auto split: option.splits dest: fire_ok)

lemma setupCanvas_ok: "history_ok (setupCanvas (initial (Some c) draws))"
  by (auto simp: history_ok_def setupCanvas_def initial_def Let_def split: prod.splits)

lemma startup_facts:
  "canvasRef startup = Some \<lparr>cv_width = 600, cv_height = 400, pixels = blank\<rparr>"
  "historyRef startup = [blank]" "historyIndexRef startup = 0"
  "animating startup = False" "isDrawing startup = False" "mode startup = pen"
  by (simp_all add: startup_def setupCanvas_def initial_def fillWhite_def blank_def
      CANVAS_WIDTH_def CANVAS_HEIGHT_def)

lemma startup_ok: "history_ok startup"
  by (simp add: history_ok_def startup_facts)

lemma drawn_facts:
  "run [StartDrawing 100 100, Draw 200 100 strokeExample, StopDrawing] startup = Some drawn"
  "canvasRef drawn = Some \<lparr>cv_width = 600, cv_height = 400, pixels = strokeExample\<rparr>"
  "historyRef drawn = [blank, blank]" "historyIndexRef drawn = 1"
  by (simp_all add: drawn_def startDrawing_def startup_facts saveHistory_def draw_def
      stopDrawing_def putImageData_def)

section \<open>The range of the history index\<close>

text \<open>
  C6, as amended. In every state that a run of the application reaches from the
  seeded start-up state, the history index satisfies \<open>-1 \<le> index < length\<close>. The
  value \<open>-1\<close> is the sentinel that \<^verbatim>\<open>undo\<close> at index \<open>\<le> 0\<close> and \<^verbatim>\<open>stopAnimation\<close>
  set; it occurs with a non-empty history, so \<open>0 \<le> index\<close> is not an invariant.
\<close>

theorem history_index_range:
  "run es (setupCanvas (initial (Some c) draws)) = Some s
   \<Longrightarrow> - 1 \<le> historyIndexRef s \<and> historyIndexRef s < int (length (historyRef s))"
  using run_ok [OF setupCanvas_ok, of es c draws s] by (simp add: history_ok_def)

theorem history_index_range_witness:
  "run [StartDrawing 100 100, Undo, Undo] startup = Some (undo (undo (the (startDrawing 100 100 startup))))
   \<and> - 1 \<le> historyIndexRef (undo (undo (the (startDrawing 100 100 startup))))
   \<and> historyIndexRef (undo (undo (the (startDrawing 100 100 startup))))
       < int (length (historyRef (undo (undo (the (startDrawing 100 100 startup))))))"
proof -
  have r: "run [StartDrawing 100 100, Undo, Undo] (setupCanvas (initial (Some \<lparr>cv_width = 300, cv_height = 150, pixels = replicate 180000 0\<rparr>) (0, 0, 0, 0))) = Some (undo (undo (the (startDrawing 100 100 startup))))"
    by (simp add: startDrawing_def startup_facts startup_def [symmetric])
  from history_index_range [OF r] r show ?thesis by (simp add: startup_def)
qed

text \<open>
  C6 as stated fails: after one stroke, two calls of \<^verbatim>\<open>undo\<close> leave a history of two
  snapshots and the index at \<open>-1\<close>.
\<close>

theorem undo_at_first_snapshot_counterexample:
  "run [StartDrawing 100 100, Draw 200 100 strokeExample, StopDrawing, Undo, Undo] startup
     = Some (undo (undo drawn))
   \<and> historyRef (undo (undo drawn)) = [blank, blank]
   \<and> historyIndexRef (undo (undo drawn)) = - 1
   \<and> \<not> (0 \<le> historyIndexRef (undo (undo drawn))
         \<and> historyIndexRef (undo (undo drawn)) < int (length (historyRef (undo (undo drawn)))))"
proof -
  have one: "historyRef (undo drawn) = [blank, blank]" "historyIndexRef (undo drawn) = 0"
    "canvasRef (undo drawn) = Some \<lparr>cv_width = 600, cv_height = 400, pixels = blank\<rparr>"
    by (simp_all add: undo_def drawn_facts array_get_def putImageData_def)
  have two: "historyRef (undo (undo drawn)) = [blank, blank]"
    "historyIndexRef (undo (undo drawn)) = - 1"
    by (simp_all add: undo_def [of "undo drawn"] one)
  have "run [StartDrawing 100 100, Draw 200 100 strokeExample, StopDrawing, Undo, Undo] startup
     = Some (undo (undo drawn))"
    using drawn_facts(1) by (simp split: option.splits)
  with two show ?thesis by simp
qed

section \<open>Return to drawing\<close>





section \<open>Sequences of pushes, undos and redos\<close>

lemma saveHistory_push:
  assumes "history_ok s" "canvasRef s = Some c"
  defines "kept \<equiv> take (nat (historyIndexRef s + 1)) (historyRef s)"
  shows "historyRef (saveHistory s) = (if length kept = 20 then tl kept @ [pixels c] else kept @ [pixels c])"
    and "historyIndexRef (saveHistory s) = (if length kept = 20 then historyIndexRef s else historyIndexRef s + 1)"
    and "historyIndexRef (saveHistory s) = int (length (historyRef (saveHistory s))) - 1"
    and "canvasRef (saveHistory s) = Some c"
    and "length kept = nat (historyIndexRef s + 1)"
proof -
  have k: "length kept = nat (historyIndexRef s + 1)" "length kept \<le> 20"
    using assms(1) by (auto simp: kept_def history_ok_def)
  have sl: "(if historyIndexRef s < int (length (historyRef s)) - 1
             then slice0 (historyRef s) (historyIndexRef s + 1) else historyRef s) = kept"
    using assms(1) by (auto simp: kept_def history_ok_def slice0_def)
  have ne: "length kept = 20 \<Longrightarrow> kept \<noteq> []" by auto
  show "historyRef (saveHistory s) = (if length kept = 20 then tl kept @ [pixels c] else kept @ [pixels c])"
    using k ne by (simp add: saveHistory_def assms(2) sl Let_def)
  show "historyIndexRef (saveHistory s) = (if length kept = 20 then historyIndexRef s else historyIndexRef s + 1)"
    using k by (simp add: saveHistory_def assms(2) sl Let_def)
  show "historyIndexRef (saveHistory s) = int (length (historyRef (saveHistory s))) - 1"
    using k ne assms(1) by (auto simp add: saveHistory_def assms(2) sl Let_def history_ok_def)
  show "canvasRef (saveHistory s) = Some c"
    by (simp add: saveHistory_def assms(2) sl Let_def)
  show "length kept = nat (historyIndexRef s + 1)" by (rule k)
qed

lemma withPixels_simps:
  "historyRef (withPixels b s) = historyRef s"
  "historyIndexRef (withPixels b s) = historyIndexRef s"
  "canvasRef s = Some c \<Longrightarrow> canvasRef (withPixels b s) = Some (putImageData c b)"
  "history_ok (withPixels b s) = history_ok s"
  by (simp_all add: withPixels_def history_ok_def)

lemma pushes_ok: "history_ok s \<Longrightarrow> history_ok (pushes bs s)"
  by (induction bs arbitrary: s) (simp_all add: saveHistory_ok withPixels_simps)

lemma pushes_at_top:
  assumes "history_ok s" "canvasRef s = Some c"
    and "historyIndexRef s = int (length (historyRef s)) - 1"
  shows "historyRef (pushes bs s)
           = drop (length (historyRef s) + length bs - 20) (historyRef s @ bs)
         \<and> historyIndexRef (pushes bs s) = int (length (historyRef (pushes bs s))) - 1
         \<and> canvasRef (pushes bs s) = Some (if bs = [] then c else putImageData c (last bs))"
  using assms
proof (induction bs arbitrary: s c)
  case Nil
  then show ?case by (simp add: history_ok_def)
next
  case (Cons b bs)
  let ?s = "withPixels b s"
  let ?h = "historyRef s"
  have ok: "history_ok ?s" and cv: "canvasRef ?s = Some (putImageData c b)"
    using Cons.prems by (simp_all add: withPixels_simps)
  note push = saveHistory_push [OF ok cv]
  have kept: "take (nat (historyIndexRef ?s + 1)) (historyRef ?s) = ?h"
    using Cons.prems(3) by (simp add: withPixels_simps)
  have h1: "historyRef (saveHistory ?s) = (if length ?h = 20 then tl ?h @ [b] else ?h @ [b])"
    using push(1) by (simp add: kept putImageData_def)
  have len: "length ?h \<le> 20" using Cons.prems(1) by (simp add: history_ok_def)
  have "drop (length (historyRef (saveHistory ?s)) + length bs - 20) (historyRef (saveHistory ?s) @ bs)
        = drop (length ?h + length (b # bs) - 20) (?h @ b # bs)"
  proof (cases "length ?h = 20")
    case True
    then obtain x xs where "?h = x # xs" by (cases ?h) auto
    with True show ?thesis by (simp add: h1)
  next
    case False
    with len show ?thesis by (simp add: h1)
  qed
  with Cons.IH [OF saveHistory_ok [OF ok] push(4) push(3)] show ?case
    by (simp add: putImageData_def)
qed

lemma pushes_many:
  assumes "history_ok s" "canvasRef s = Some c" "20 \<le> length bs"
  shows "historyRef (pushes bs s) = drop (length bs - 20) bs"
    and "historyIndexRef (pushes bs s) = 19"
    and "canvasRef (pushes bs s) = Some (putImageData c (last bs))"
proof -
  from assms(3) obtain b bs' where bs: "bs = b # bs'" by (cases bs) auto
  let ?s = "withPixels b s"
  let ?kept = "take (nat (historyIndexRef s + 1)) (historyRef s)"
  have ok: "history_ok ?s" and cv: "canvasRef ?s = Some (putImageData c b)"
    using assms by (simp_all add: withPixels_simps)
  note push = saveHistory_push [OF ok cv]
  note top = pushes_at_top [OF saveHistory_ok [OF ok] push(4) push(3), of bs']
  have h1: "historyRef (saveHistory ?s) = (if length ?kept = 20 then tl ?kept @ [b] else ?kept @ [b])"
    using push(1) by (simp add: withPixels_simps putImageData_def)
  have klen: "length ?kept \<le> 20" using assms(1) by (auto simp: history_ok_def)
  have n: "19 \<le> length bs'" using assms(3) bs by simp
  have eq: "drop (length (historyRef (saveHistory ?s)) + length bs' - 20) (historyRef (saveHistory ?s) @ bs')
        = drop (length bs - 20) bs"
  proof (cases "length ?kept = 20")
    case True
    then obtain x xs where k: "?kept = x # xs" by (cases ?kept) auto
    with True have "length xs = 19" by simp
    with n k True show ?thesis by (simp add: h1 bs del: take_eq_Nil)
  next
    case False
    with klen n show ?thesis
      by (simp add: h1 bs Suc_diff_le)
  qed
  show hist: "historyRef (pushes bs s) = drop (length bs - 20) bs"
    using top eq by (simp add: bs)
  show "historyIndexRef (pushes bs s) = 19"
    using top hist assms(3) by (simp add: bs)
  show "canvasRef (pushes bs s) = Some (putImageData c (last bs))"
    using top by (simp add: bs putImageData_def)
qed

lemma putImageData_twice: "putImageData (putImageData c a) b = putImageData c b"
  by (simp add: putImageData_def)

lemma undo_step:
  assumes "canvasRef s = Some c" "0 < historyIndexRef s"
    and "historyIndexRef s \<le> int (length (historyRef s))"
  shows "canvasRef (undo s) = Some (putImageData c (historyRef s ! nat (historyIndexRef s - 1)))"
    and "historyIndexRef (undo s) = historyIndexRef s - 1"
    and "historyRef (undo s) = historyRef s"
  using assms by (simp_all add: undo_def array_get_def Let_def)

lemma redo_step:
  assumes "canvasRef s = Some c" "- 1 \<le> historyIndexRef s"
    and "historyIndexRef s < int (length (historyRef s)) - 1"
  shows "canvasRef (redo s) = Some (putImageData c (historyRef s ! nat (historyIndexRef s + 1)))"
    and "historyIndexRef (redo s) = historyIndexRef s + 1"
    and "historyRef (redo s) = historyRef s"
  using assms by (simp_all add: redo_def array_get_def Let_def)

lemma undo_funpow:
  assumes "canvasRef s = Some c" "historyIndexRef s < int (length (historyRef s))"
  shows "0 < j \<Longrightarrow> int j \<le> historyIndexRef s \<Longrightarrow>
         canvasRef ((undo ^^ j) s) = Some (putImageData c (historyRef s ! nat (historyIndexRef s - int j)))
         \<and> historyIndexRef ((undo ^^ j) s) = historyIndexRef s - int j
         \<and> historyRef ((undo ^^ j) s) = historyRef s"
proof (induction j)
  case 0
  then show ?case by simp
next
  case (Suc j)
  show ?case
  proof (cases "j = 0")
    case True
    with Suc.prems assms undo_step [of s c] show ?thesis
      by simp
  next
    case False
    let ?t = "(undo ^^ j) s"
    from False Suc have IH: "canvasRef ?t = Some (putImageData c (historyRef s ! nat (historyIndexRef s - int j)))"
      "historyIndexRef ?t = historyIndexRef s - int j"
      "historyRef ?t = historyRef s" by simp_all
    have pos: "0 < historyIndexRef ?t" "historyIndexRef ?t \<le> int (length (historyRef ?t))"
      using Suc.prems assms IH by simp_all
    from undo_step [OF IH(1) pos] IH show ?thesis
      by (simp add: putImageData_twice algebra_simps)
  qed
qed

lemma redo_funpow:
  assumes "canvasRef s = Some c" "- 1 \<le> historyIndexRef s"
  shows "0 < j \<Longrightarrow> historyIndexRef s + int j < int (length (historyRef s)) \<Longrightarrow>
         canvasRef ((redo ^^ j) s) = Some (putImageData c (historyRef s ! nat (historyIndexRef s + int j)))
         \<and> historyIndexRef ((redo ^^ j) s) = historyIndexRef s + int j
         \<and> historyRef ((redo ^^ j) s) = historyRef s"
proof (induction j)
  case 0
  then show ?case by simp
next
  case (Suc j)
  show ?case
  proof (cases "j = 0")
    case True
    with Suc.prems assms redo_step [of s c] show ?thesis
      by simp
  next
    case False
    let ?t = "(redo ^^ j) s"
    from False Suc have IH: "canvasRef ?t = Some (putImageData c (historyRef s ! nat (historyIndexRef s + int j)))"
      "historyIndexRef ?t = historyIndexRef s + int j"
      "historyRef ?t = historyRef s" by simp_all
    have pos: "- 1 \<le> historyIndexRef ?t" "historyIndexRef ?t < int (length (historyRef ?t)) - 1"
      using Suc.prems assms IH by simp_all
    from redo_step [OF IH(1) pos] IH show ?thesis
      by (simp add: putImageData_twice algebra_simps)
  qed
qed

lemma pushes_undo:
  assumes "history_ok s" "canvasRef s = Some c" "20 \<le> length bs" "j < 20"
  shows "shown ((undo ^^ j) (pushes bs s)) = Some (rev bs ! j)"
proof (cases "j = 0")
  case True
  from assms(3) have "bs \<noteq> []" by auto
  with True pushes_many(3) [OF assms(1-3)] show ?thesis
    by (simp add: shown_def putImageData_def hd_rev nth_Cons' hd_conv_nth [symmetric])
next
  case False
  note m = pushes_many [OF assms(1-3)]
  have "canvasRef ((undo ^^ j) (pushes bs s))
          = Some (putImageData (putImageData c (last bs)) (historyRef (pushes bs s) ! nat (historyIndexRef (pushes bs s) - int j)))"
    using undo_funpow [OF m(3), of j] False assms(3,4) m(1,2) by simp
  moreover have "historyRef (pushes bs s) ! nat (historyIndexRef (pushes bs s) - int j) = rev bs ! j"
  proof -
    have "nat (19 - int j) = 19 - j" by simp
    moreover have "length bs - 20 + (19 - j) = length bs - Suc j" using assms(3,4) by simp
    ultimately show ?thesis using assms(3,4) by (simp add: m rev_nth)
  qed
  ultimately show ?thesis by (simp add: shown_def putImageData_def)
qed

section \<open>Snapshot pushes in isolation\<close>

text \<open>
  Snapshot pushes taken by themselves, the canvas drawn to a buffer and then saved. In a
  state that keeps the bounds, with the canvas mounted: the stack has at most 20 entries
  after a push; when the push would make 21, the oldest entry is dropped and the index
  keeps its value, otherwise the index is incremented; either way the index points at
  the snapshot just pushed. After 20 or more such pushes the stack holds exactly the
  last 20 buffers pushed, and \<open>j\<close> undos put the \<open>j\<close>-th most recent on the canvas.
  The application never pushes in this order: it saves before it draws.
\<close>

lemma pushes_bounded:
  assumes "history_ok s" "canvasRef s = Some c"
  shows "(let kept = take (nat (historyIndexRef s + 1)) (historyRef s); s' = saveHistory s
          in length (historyRef s') \<le> 20
             \<and> (20 < length kept + 1
                 \<longrightarrow> historyRef s' = tl kept @ [pixels c] \<and> historyIndexRef s' = historyIndexRef s)
             \<and> (length kept + 1 \<le> 20
                 \<longrightarrow> historyRef s' = kept @ [pixels c] \<and> historyIndexRef s' = historyIndexRef s + 1)
             \<and> array_get (historyRef s') (historyIndexRef s') = Some (pixels c))
         \<and> (\<forall>bs. length (historyRef (pushes bs s)) \<le> 20)
         \<and> (\<forall>bs. 20 \<le> length bs
               \<longrightarrow> historyRef (pushes bs s) = drop (length bs - 20) bs
                   \<and> (\<forall>j<20. shown ((undo ^^ j) (pushes bs s)) = Some (rev bs ! j)))"
proof -
  note push = saveHistory_push [OF assms]
  let ?kept = "take (nat (historyIndexRef s + 1)) (historyRef s)"
  have klen: "length ?kept \<le> 20" using assms(1) by (auto simp: history_ok_def)
  have ok': "history_ok (saveHistory s)" using assms(1) by (rule saveHistory_ok)
  have top: "array_get (historyRef (saveHistory s)) (historyIndexRef (saveHistory s)) = Some (pixels c)"
  proof -
    have "historyRef (saveHistory s) \<noteq> []" using push(1) by auto
    moreover have "last (historyRef (saveHistory s)) = pixels c" using push(1) by auto
    moreover have "nat (int (length (historyRef (saveHistory s))) - 1)
        = length (historyRef (saveHistory s)) - 1" by arith
    ultimately show ?thesis
      by (simp add: array_get_def push(3) last_conv_nth)
  qed
  have one: "length (historyRef (saveHistory s)) \<le> 20
      \<and> (20 < length ?kept + 1
          \<longrightarrow> historyRef (saveHistory s) = tl ?kept @ [pixels c]
              \<and> historyIndexRef (saveHistory s) = historyIndexRef s)
      \<and> (length ?kept + 1 \<le> 20
          \<longrightarrow> historyRef (saveHistory s) = ?kept @ [pixels c]
              \<and> historyIndexRef (saveHistory s) = historyIndexRef s + 1)
      \<and> array_get (historyRef (saveHistory s)) (historyIndexRef (saveHistory s)) = Some (pixels c)"
    using ok' klen push(1,2) top by (auto simp: history_ok_def)
  have two: "\<forall>bs. length (historyRef (pushes bs s)) \<le> 20"
    using pushes_ok [OF assms(1)] by (simp add: history_ok_def)
  have three: "\<forall>bs. 20 \<le> length bs
               \<longrightarrow> historyRef (pushes bs s) = drop (length bs - 20) bs
                   \<and> (\<forall>j<20. shown ((undo ^^ j) (pushes bs s)) = Some (rev bs ! j))"
    using pushes_many(1) [OF assms] pushes_undo [OF assms] by blast
  from one two three show ?thesis by (simp add: Let_def)
qed

lemma pushes_bounded_example:
  "history_ok startup
   \<and> canvasRef startup = Some \<lparr>cv_width = 600, cv_height = 400, pixels = blank\<rparr>
   \<and> historyRef (saveHistory startup) = [blank, blank]
   \<and> historyIndexRef (saveHistory startup) = 1
   \<and> length (historyRef (pushes (map (\<lambda>k. replicate 960000 (of_nat k)) [0..<25]) startup)) = 20
   \<and> shown ((undo ^^ 3) (pushes (map (\<lambda>k. replicate 960000 (of_nat k)) [0..<25]) startup))
       = Some (replicate 960000 21)"
proof -
  have len: "20 \<le> length (map (\<lambda>k. replicate 960000 (of_nat k :: byte)) [0..<25])"
    and j: "(3::nat) < 20"
    by simp_all
  have r: "rev (map (\<lambda>k. replicate 960000 (of_nat k :: byte)) [0..<25]) ! 3 = replicate 960000 21"
    by (simp add: rev_nth)
  note h = pushes_bounded [OF startup_ok startup_facts(1), unfolded Let_def]
  from h have a: "historyRef (saveHistory startup) = [blank, blank]"
    "historyIndexRef (saveHistory startup) = 1"
    by (simp_all add: startup_facts)
  from h len have b: "historyRef (pushes (map (\<lambda>k. replicate 960000 (of_nat k)) [0..<25]) startup)
     = drop (length (map (\<lambda>k. replicate 960000 (of_nat k :: byte)) [0..<25]) - 20) (map (\<lambda>k. replicate 960000 (of_nat k)) [0..<25])"
    by blast
  from h len j have c: "shown ((undo ^^ 3) (pushes (map (\<lambda>k. replicate 960000 (of_nat k)) [0..<25]) startup))
     = Some (rev (map (\<lambda>k. replicate 960000 (of_nat k :: byte)) [0..<25]) ! 3)"
    by blast
  from a b c r startup_ok startup_facts(1) show ?thesis by simp
qed


section \<open>Undo and redo of the last stroke\<close>

text \<open>
  For any one to nineteen strokes or fills from start-up: the canvas shows the last
  buffer; as many undos give the blank canvas; as many redos then give the buffer as it
  was before the last stroke.
\<close>

lemma strokes_history:
  assumes "history_ok s" "canvasRef s = Some c"
    and "historyIndexRef s = int (length (historyRef s)) - 1"
    and "length (historyRef s) + length bs \<le> 20"
  shows "historyRef (strokes bs s) = historyRef s @ take (length bs) (pixels c # bs)
         \<and> historyIndexRef (strokes bs s) = int (length (historyRef s) + length bs) - 1
         \<and> canvasRef (strokes bs s) = Some (if bs = [] then c else putImageData c (last bs))"
  using assms
proof (induction bs arbitrary: s c)
  case Nil
  then show ?case by simp
next
  case (Cons b bs)
  let ?s = "withPixels b (saveHistory s)"
  note push = saveHistory_push [OF Cons.prems(1,2)]
  have kept: "take (nat (historyIndexRef s + 1)) (historyRef s) = historyRef s"
    using Cons.prems(3) by simp
  have small: "length (historyRef s) \<noteq> 20" using Cons.prems(4) by simp
  have h1: "historyRef ?s = historyRef s @ [pixels c]"
    using push(1) small by (simp add: kept withPixels_simps)
  have i1: "historyIndexRef ?s = int (length (historyRef ?s)) - 1"
    using push(3) by (simp add: withPixels_simps)
  have c1: "canvasRef ?s = Some (putImageData c b)"
    using push(4) by (simp add: withPixels_simps)
  have ok1: "history_ok ?s"
    using saveHistory_ok [OF Cons.prems(1)] by (simp add: withPixels_simps)
  have l1: "length (historyRef ?s) + length bs \<le> 20"
    using Cons.prems(4) by (simp add: h1)
  from Cons.IH [OF ok1 c1 i1 l1] show ?case
    by (simp add: h1 putImageData_def)
qed

lemma undo_all_redo_all:
  assumes "bs \<noteq> []" "length bs \<le> 19"
  shows "shown (strokes bs startup) = Some (last bs)"
    and "shown ((undo ^^ length bs) (strokes bs startup)) = Some blank"
    and "shown ((redo ^^ length bs) ((undo ^^ length bs) (strokes bs startup)))
         = Some ((blank # bs) ! (length bs - 1))"
proof -
  let ?c = "\<lparr>cv_width = 600, cv_height = 400, pixels = blank\<rparr>"
  let ?n = "length bs"
  let ?s = "strokes bs startup"
  have top: "historyIndexRef startup = int (length (historyRef startup)) - 1"
    and room: "length (historyRef startup) + length bs \<le> 20"
    using assms(2) by (simp_all add: startup_facts)
  from strokes_history [OF startup_ok startup_facts(1) top room] assms(1)
  have h: "historyRef ?s = blank # take ?n (blank # bs)"
    and i: "historyIndexRef ?s = int ?n"
    and c: "canvasRef ?s = Some (putImageData ?c (last bs))"
    by (simp_all add: startup_facts)
  show "shown ?s = Some (last bs)" by (simp add: c shown_def putImageData_def)
  have pos: "0 < ?n" using assms(1) by simp
  have below: "historyIndexRef ?s < int (length (historyRef ?s))"
    by (simp add: h i)
  note u = undo_funpow [OF c below pos, unfolded i, OF order_refl]
  let ?u = "(undo ^^ ?n) ?s"
  from u have uc: "canvasRef ?u = Some (putImageData (putImageData ?c (last bs)) blank)"
    and ui: "historyIndexRef ?u = 0" and uh: "historyRef ?u = historyRef ?s"
    by (simp_all add: h)
  show "shown ?u = Some blank" by (simp add: uc shown_def putImageData_def)
  have lo: "- 1 \<le> historyIndexRef ?u" by (simp add: ui)
  have hi: "historyIndexRef ?u + int ?n < int (length (historyRef ?u))"
    by (simp add: ui uh h)
  from redo_funpow [OF uc lo pos hi]
  have "canvasRef ((redo ^^ ?n) ?u)
        = Some (putImageData (putImageData (putImageData ?c (last bs)) blank)
                  (historyRef ?u ! nat (historyIndexRef ?u + int ?n)))" by simp
  moreover have "historyRef ?u ! nat (historyIndexRef ?u + int ?n) = (blank # bs) ! (?n - 1)"
    using pos by (simp add: ui uh h nth_Cons')
  ultimately show "shown ((redo ^^ ?n) ?u) = Some ((blank # bs) ! (?n - 1))"
    by (simp add: shown_def putImageData_def)
qed

lemma strokeExample_not_blank: "strokeExample \<noteq> blank"
proof
  assume "strokeExample = blank"
  then have "strokeExample ! 240400 = blank ! 240400" by simp
  then show False
    by (simp add: strokeExample_def blank_def CANVAS_WIDTH_def CANVAS_HEIGHT_def)
qed

text \<open>
  C1 fails on the code. From the start-up state, one pen stroke puts \<open>strokeExample\<close>
  on the canvas; \<^verbatim>\<open>undo\<close> gives the blank canvas; \<^verbatim>\<open>redo\<close> then gives the blank canvas
  again, not the stroke: the snapshot is taken before the stroke and the stroke itself
  is never stored.
\<close>

theorem undo_redo_loses_last_stroke:
  "map_option shown (run [StartDrawing 100 100, Draw 200 100 strokeExample, StopDrawing] startup)
     = Some (Some strokeExample)
   \<and> map_option shown (run [StartDrawing 100 100, Draw 200 100 strokeExample, StopDrawing, Undo] startup)
     = Some (Some blank)
   \<and> map_option shown
       (run [StartDrawing 100 100, Draw 200 100 strokeExample, StopDrawing, Undo, Redo] startup)
     = Some (Some blank)
   \<and> strokeExample \<noteq> blank"
  by (simp add: strokeExample_not_blank startDrawing_def startup_facts saveHistory_def draw_def
      stopDrawing_def undo_def redo_def array_get_def shown_def putImageData_def)

section \<open>Undo at the lower bound\<close>

lemma three_strokes:
  "canvasRef afterThree
     = Some \<lparr>cv_width = 600, cv_height = 400, pixels = frame 3\<rparr>"
  "historyRef afterThree
     = [blank, blank, strokeExample, frame 2]"
  "historyIndexRef afterThree = 3"
  by (simp_all add: afterThree_def saveHistory_def withPixels_def startup_facts putImageData_def)

lemma restart_stroke:
  "canvasRef afterRestart
     = Some \<lparr>cv_width = 600, cv_height = 400, pixels = strokeExample\<rparr>"
  "historyRef afterRestart = [blank]"
  "historyIndexRef afterRestart = 0"
  by (simp_all add: afterRestart_def saveHistory_def withPixels_def stopAnimation_def startup_facts
      putImageData_def fillWhite_def blank_def CANVAS_WIDTH_def CANVAS_HEIGHT_def)

text \<open>
  C7. In a state that keeps the bounds of the history, with the canvas mounted: if the
  index is \<open>\<le> 0\<close> or the history is empty, \<^verbatim>\<open>undo\<close> makes every byte of the canvas 255
  (all white, opaque), sets the index to \<open>-1\<close> and leaves the stack as it is, and a
  second \<^verbatim>\<open>undo\<close> changes nothing more; otherwise \<^verbatim>\<open>undo\<close> decrements the index, leaves
  the stack as it is, and the pixels of the canvas are then those of the snapshot at
  the new index.
\<close>

theorem undo_cases:
  assumes "canvasRef s = Some c" "history_ok s"
  shows "(historyIndexRef s \<le> 0 \<or> historyRef s = []
          \<longrightarrow> undo s = s\<lparr>canvasRef := Some (c\<lparr>pixels := replicate (cv_width c * cv_height c * 4) 255\<rparr>),
                         historyIndexRef := - 1\<rparr>
              \<and> shown (undo s) = Some (replicate (cv_width c * cv_height c * 4) 255)
              \<and> historyIndexRef (undo s) = - 1
              \<and> historyRef (undo s) = historyRef s
              \<and> undo (undo s) = undo s)
       \<and> (\<not> (historyIndexRef s \<le> 0 \<or> historyRef s = [])
          \<longrightarrow> undo s = s\<lparr>canvasRef := Some (c\<lparr>pixels := historyRef s ! nat (historyIndexRef s - 1)\<rparr>),
                         historyIndexRef := historyIndexRef s - 1\<rparr>
              \<and> shown (undo s) = Some (historyRef s ! nat (historyIndexRef s - 1))
              \<and> historyIndexRef (undo s) = historyIndexRef s - 1
              \<and> historyRef (undo s) = historyRef s)"
  using assms
  by (auto simp: undo_def history_ok_def fillWhite_def putImageData_def array_get_def Let_def
      shown_def)

theorem undo_cases_witness:
  "canvasRef afterRestart
     = Some \<lparr>cv_width = 600, cv_height = 400, pixels = strokeExample\<rparr>
   \<and> history_ok afterRestart
   \<and> historyIndexRef afterRestart \<le> 0
   \<and> shown (undo afterRestart) = Some blank
   \<and> historyIndexRef (undo afterRestart) = - 1
   \<and> undo (undo afterRestart)
       = undo afterRestart
   \<and> strokeExample \<noteq> blank
   \<and> canvasRef afterThree
       = Some \<lparr>cv_width = 600, cv_height = 400, pixels = frame 3\<rparr>
   \<and> history_ok afterThree
   \<and> \<not> (historyIndexRef afterThree \<le> 0
         \<or> historyRef afterThree = [])
   \<and> shown (undo afterThree) = Some strokeExample
   \<and> historyIndexRef (undo afterThree) = 2
   \<and> frame 3 \<noteq> strokeExample"
proof -
  let ?a = afterRestart
  let ?b = afterThree
  have oka: "history_ok ?a" unfolding history_ok_def restart_stroke by simp
  have okb: "history_ok ?b" unfolding history_ok_def three_strokes by simp
  have low: "historyIndexRef ?a \<le> 0 \<or> historyRef ?a = []" unfolding restart_stroke by simp
  have high: "\<not> (historyIndexRef ?b \<le> 0 \<or> historyRef ?b = [])"
    unfolding three_strokes by simp
  let ?ca = "\<lparr>cv_width = 600, cv_height = 400, pixels = strokeExample\<rparr>"
  from undo_cases [OF restart_stroke(1) oka] low
  have a0: "shown (undo ?a) = Some (replicate (cv_width ?ca * cv_height ?ca * 4) 255)"
    and a1: "historyIndexRef (undo ?a) = - 1" and a2: "undo (undo ?a) = undo ?a"
    by blast+
  have a: "shown (undo ?a) = Some (replicate (600 * 400 * 4) 255)"
    unfolding a0 by simp
  from undo_cases [OF three_strokes(1) okb] high
  have b: "shown (undo ?b) = Some (historyRef ?b ! nat (historyIndexRef ?b - 1))"
    "historyIndexRef (undo ?b) = historyIndexRef ?b - 1"
    by blast+
  have ne: "frame 3 \<noteq> strokeExample"
  proof
    assume "frame 3 = strokeExample"
    then have "frame 3 ! 0 = strokeExample ! 0" by simp
    then show False by (simp add: frame_def strokeExample_def)
  qed
  have white: "replicate (600 * 400 * 4) 255 = blank"
    by (simp add: blank_def CANVAS_WIDTH_def CANVAS_HEIGHT_def)
  have snap: "historyRef ?b ! nat (historyIndexRef ?b - 1) = strokeExample"
    "historyIndexRef ?b - 1 = 2"
    unfolding three_strokes by simp_all
  show ?thesis
    using a [unfolded white] a1 a2 b [unfolded snap] ne oka okb low high restart_stroke(1,3)
      three_strokes(1) strokeExample_not_blank
    by (intro conjI) (simp_all add: three_strokes)
qed

section \<open>The newest snapshot is out of reach\<close>

lemma frame_inj:
  assumes "a < 256" "b < 256" "frame a = frame b"
  shows "a = b"
proof -
  from assms(3) have "frame a ! 0 = frame b ! 0" by simp
  then have "(of_nat a :: byte) = of_nat b" by (simp add: frame_def)
  then have "unat (of_nat a :: byte) = unat (of_nat b :: byte)" by simp
  with assms(1,2) show ?thesis by (simp add: unat_of_nat)
qed

lemma frame_not_blank: "k < 255 \<Longrightarrow> frame k \<noteq> blank"
proof
  assume k: "k < 255" and "frame k = blank"
  then have "frame k ! 0 = blank ! 0" by simp
  then have "(of_nat k :: byte) = 255" by (simp add: frame_def blank_def CANVAS_WIDTH_def CANVAS_HEIGHT_def)
  then have "unat (of_nat k :: byte) = unat (255 :: byte)" by simp
  with k show False by (simp add: unat_of_nat)
qed

lemma withPixels_same: "canvasRef s = Some c \<Longrightarrow> withPixels (pixels c) s = s"
  by (simp add: withPixels_def putImageData_def)

lemma strokes_pushes:
  "canvasRef s = Some c \<Longrightarrow> bs \<noteq> []
   \<Longrightarrow> strokes bs s = withPixels (last bs) (pushes (pixels c # butlast bs) s)"
proof (induction bs arbitrary: s c)
  case Nil
  then show ?case by simp
next
  case (Cons b bs)
  let ?s = "withPixels b (saveHistory s)"
  have c1: "canvasRef ?s = Some (putImageData c b)"
    using Cons.prems(1) by (simp add: withPixels_def saveHistory_def Let_def)
  show ?case
  proof (cases "bs = []")
    case True
    with Cons.prems show ?thesis by (simp add: withPixels_same)
  next
    case False
    from Cons.IH [OF c1 False] have "strokes bs ?s
        = withPixels (last bs) (pushes (b # butlast bs) ?s)"
      by (simp add: putImageData_def)
    moreover have "withPixels b ?s = ?s"
      using withPixels_same [OF c1] by (simp add: putImageData_def)
    ultimately show ?thesis using False Cons.prems by (simp add: withPixels_same)
  qed
qed

lemma undo_bottom:
  assumes "canvasRef t = Some c" "historyIndexRef t \<le> 0"
  shows "canvasRef ((undo ^^ Suc k) t) = Some (fillWhite c)
         \<and> historyIndexRef ((undo ^^ Suc k) t) = - 1"
proof (induction k)
  case 0
  from assms show ?case by (simp add: undo_def)
next
  case (Suc k)
  then show ?case
    by (simp add: undo_def [of "undo ((undo ^^ k) t)"] fillWhite_def)
qed


lemma upt_26: "[1..<26] = [1..<25] @ [25::nat]" using upt_Suc_append [of 1 25] by simp
lemma butlast_frames: "butlast (map frame [1..<26]) = map frame [1..<25]"
  unfolding upt_26 by (simp only: map_append list.map butlast_snoc)
lemma last_frames: "last (map frame [1..<26]) = frame 25" unfolding upt_26 by (simp only: map_append list.map last_snoc)
lemma upt_25: "[1..<25] = [1..<5] @ [5..<25::nat]" by (simp add: upt_conv_Cons)
lemma length_frames4: "length (map frame [1..<5]) = 4" by simp
lemma drop_frames: "drop (length (blank # map frame [1..<25]) - 20) (blank # map frame [1..<25]) = map frame [5..<25]"
proof -
  have "length (blank # map frame [1..<25]) - 20 = Suc 4" by simp
  moreover have "drop 4 (map frame [1..<25]) = map frame [5..<25]"
    unfolding upt_25 map_append using length_frames4 by (simp only: drop_append append_Nil drop_all diff_self_eq_0 drop_0 order_refl)
  ultimately show ?thesis by (simp only: drop_Suc_Cons)
qed
lemma nth_frames: "map frame [5..<25] ! (19 - j) = frame (5 + (19 - j))"
      by (rule nth_map_upt) simp

lemma twentyFive_strokes:
  "canvasRef (strokes (map frame [1..<26]) startup) = Some \<lparr>cv_width = 600, cv_height = 400, pixels = frame 25\<rparr>"
  "historyRef (strokes (map frame [1..<26]) startup) = map frame [5..<25]"
  "historyIndexRef (strokes (map frame [1..<26]) startup) = 19"
proof -
  let ?c = "\<lparr>cv_width = 600, cv_height = 400, pixels = blank\<rparr>"
  let ?bs = "map frame [1..<26]"
  let ?ps = "pixels ?c # butlast ?bs"
  note bl = butlast_frames
  note la = last_frames
  have len: "20 \<le> length ?ps" unfolding bl by simp
  note m = pushes_many [OF startup_ok startup_facts(1) len]
  have ne: "?bs \<noteq> []" unfolding upt_26 by simp
  have unf: "strokes (map frame [1..<26]) startup = withPixels (frame 25) (pushes ?ps startup)"
    using strokes_pushes [OF startup_facts(1) ne] unfolding la .
  show "canvasRef (strokes (map frame [1..<26]) startup) = Some \<lparr>cv_width = 600, cv_height = 400, pixels = frame 25\<rparr>"
    unfolding unf withPixels_simps(3) [OF m(3)] by (simp add: putImageData_def)
  have "drop (length ?ps - 20) ?ps = map frame [5..<25]"
    unfolding bl using drop_frames by simp
  then show "historyRef (strokes (map frame [1..<26]) startup) = map frame [5..<25]"
    unfolding unf by (simp only: withPixels_simps m(1))
  show "historyIndexRef (strokes (map frame [1..<26]) startup) = 19"
    unfolding unf by (simp only: withPixels_simps m(2))
qed

lemma run_append:
  "run (es @ fs) s = (case run es s of None \<Rightarrow> None | Some s' \<Rightarrow> run fs s')"
  by (induction es arbitrary: s) (simp_all split: option.splits)

lemma strokeEvents_run:
  assumes "\<not> animating s" "mode s \<noteq> fill" "canvasRef s = Some c"
  shows "run (strokeEvents b) s
         = Some ((withPixels b (saveHistory s))\<lparr>position := (200, 100), isDrawing := False\<rparr>)"
  using assms
  by (simp add: strokeEvents_def startDrawing_def draw_def stopDrawing_def withPixels_def
      saveHistory_def Let_def)

lemma saveHistory_pen:
  "saveHistory (s\<lparr>position := p, isDrawing := d\<rparr>) = (saveHistory s)\<lparr>position := p, isDrawing := d\<rparr>"
  by (simp add: saveHistory_def Let_def split: option.splits)

lemma withPixels_pen:
  "withPixels b (s\<lparr>position := p, isDrawing := d\<rparr>) = (withPixels b s)\<lparr>position := p, isDrawing := d\<rparr>"
  by (simp add: withPixels_def)

lemma strokes_facts:
  "animating (strokes bs s) = animating s" "mode (strokes bs s) = mode s"
  "(canvasRef (strokes bs s) = None) = (canvasRef s = None)"
  by (induction bs arbitrary: s)
    (simp_all add: withPixels_def saveHistory_def Let_def split: option.splits)

lemma strokes_run:
  assumes "\<not> animating s" "mode s \<noteq> fill" "canvasRef s = Some c" "bs \<noteq> []"
  shows "run (concat (map strokeEvents bs)) s
         = Some ((strokes bs s)\<lparr>position := (200, 100), isDrawing := False\<rparr>)"
  using assms
proof (induction bs arbitrary: s c rule: rev_induct)
  case Nil
  then show ?case by simp
next
  case (snoc b bs)
  show ?case
  proof (cases "bs = []")
    case True
    with strokeEvents_run [OF snoc.prems(1-3)] show ?thesis by simp
  next
    case False
    let ?t = "(strokes bs s)\<lparr>position := (200, 100), isDrawing := False\<rparr>"
    from snoc.IH [OF snoc.prems(1-3) False]
    have r: "run (concat (map strokeEvents bs)) s = Some ?t" .
    from strokes_facts [of bs s] snoc.prems(1-3)
    obtain c' where t: "\<not> animating ?t" "mode ?t \<noteq> fill" "canvasRef ?t = Some c'"
      by (cases "canvasRef (strokes bs s)") auto
    have st: "strokes (bs @ [b]) s = withPixels b (saveHistory (strokes bs s))" for s
      by (induction bs arbitrary: s) simp_all
    show ?thesis
      by (simp add: run_append r strokeEvents_run [OF t] st saveHistory_pen withPixels_pen)
  qed
qed

lemma afterTwentyFive_run:
  "run (concat (map (\<lambda>k. strokeEvents (frame k)) [1..<26])) startup = Some afterTwentyFive"
  "afterTwentyFive
   = (strokes (map frame [1..<26]) startup)\<lparr>position := (200, 100), isDrawing := False\<rparr>"
proof -
  have s: "\<not> animating startup" "mode startup \<noteq> fill" by (simp_all add: startup_facts)
  have ne: "map frame [1..<26] \<noteq> []" unfolding upt_26 by simp
  have m: "map (\<lambda>k. strokeEvents (frame k)) [1..<26] = map strokeEvents (map frame [1..<26])"
    by (simp add: comp_def)
  show "run (concat (map (\<lambda>k. strokeEvents (frame k)) [1..<26])) startup = Some afterTwentyFive"
    unfolding afterTwentyFive_def m strokes_run [OF s startup_facts(1) ne] by simp
  show "afterTwentyFive
      = (strokes (map frame [1..<26]) startup)\<lparr>position := (200, 100), isDrawing := False\<rparr>"
    unfolding afterTwentyFive_def m strokes_run [OF s startup_facts(1) ne] by simp
qed

lemma afterTwentyFive_facts:
  "canvasRef afterTwentyFive = Some \<lparr>cv_width = 600, cv_height = 400, pixels = frame 25\<rparr>"
  "historyRef afterTwentyFive = map frame [5..<25]"
  "historyIndexRef afterTwentyFive = 19"
  unfolding afterTwentyFive_run(2) using twentyFive_strokes by simp_all

text \<open>
  C5 fails on the code. After twenty-five pen strokes from start-up (pointer down, a
  move that leaves \<open>frame k\<close> on the canvas at the \<open>k\<close>-th stroke, pointer up), the
  stack holds the twenty buffers \<open>frame 5\<close> to \<open>frame 24\<close> and the index is 19: the
  stack is bounded and its oldest entries were dropped. The canvas shows \<open>frame 25\<close>. The first \<^verbatim>\<open>undo\<close> shows \<open>frame 23\<close>, the
  nineteenth \<open>frame 5\<close>, the twentieth and all later ones the blank canvas. The newest
  snapshot on the stack, \<open>frame 24\<close>, the state before the last stroke, is shown by no
  number of undos: the snapshot is taken before the stroke, so the index points at the
  state before the one on the canvas, and \<^verbatim>\<open>undo\<close> steps below it.
\<close>

theorem undo_skips_newest_snapshot:
  "run (concat (map (\<lambda>k. strokeEvents (frame k)) [1..<26])) startup = Some afterTwentyFive
   \<and> historyRef afterTwentyFive = map frame [5..<25]
   \<and> historyIndexRef afterTwentyFive = 19
   \<and> shown afterTwentyFive = Some (frame 25)
   \<and> shown (undo afterTwentyFive) = Some (frame 23)
   \<and> shown ((undo ^^ 19) afterTwentyFive) = Some (frame 5)
   \<and> shown ((undo ^^ 20) afterTwentyFive) = Some blank
   \<and> last (historyRef afterTwentyFive) = frame 24
   \<and> (\<forall>j. shown ((undo ^^ j) afterTwentyFive) \<noteq> Some (frame 24))"
proof -
  let ?s = afterTwentyFive
  let ?c = "\<lparr>cv_width = 600, cv_height = 400, pixels = frame 25\<rparr>"
  note f = afterTwentyFive_facts
  have below: "historyIndexRef ?s < int (length (historyRef ?s))" by (simp add: f)
  have some: "shown ((undo ^^ j) ?s) = Some (frame (24 - j))" if "0 < j" "j \<le> 19" for j
  proof -
    from that have "int j \<le> historyIndexRef ?s" by (simp add: f)
    from undo_funpow [OF f(1) below that(1) this]
    have "canvasRef ((undo ^^ j) ?s) = Some (putImageData ?c (historyRef ?s ! nat (historyIndexRef ?s - int j)))"
      by blast
    then have "shown ((undo ^^ j) ?s) = Some (historyRef ?s ! nat (historyIndexRef ?s - int j))"
      by (simp only: shown_def putImageData_def option.map canvas.simps)
    moreover have "nat (19 - int j) = 19 - j" by simp
    moreover have "5 + (19 - j) = 24 - j" using that by simp
    ultimately show ?thesis unfolding f using nth_frames [of j] by (simp only:)
  qed
  have white: "fillWhite (putImageData ?c x) = \<lparr>cv_width = 600, cv_height = 400, pixels = blank\<rparr>" for x
    by (simp add: fillWhite_def putImageData_def blank_def CANVAS_WIDTH_def CANVAS_HEIGHT_def)
  have bottom: "shown ((undo ^^ j) ?s) = Some blank" if "20 \<le> j" for j
  proof -
    let ?t = "(undo ^^ 19) ?s"
    from undo_funpow [OF f(1) below, of 19]
    have t: "canvasRef ?t = Some (putImageData ?c (historyRef ?s ! nat (historyIndexRef ?s - int 19)))"
      "historyIndexRef ?t \<le> 0"
      by (simp_all add: f(3))
    define k where "k = j - 20"
    from that have j: "j = Suc k + 19" unfolding k_def by simp
    have "(undo ^^ j) ?s = (undo ^^ Suc k) ?t" unfolding j funpow_add by simp
    with undo_bottom [OF t, of k] show ?thesis by (simp add: shown_def white)
  qed
  have never: "shown ((undo ^^ j) ?s) \<noteq> Some (frame 24)" for j
  proof (cases "j = 0")
    case True
    have "frame 25 \<noteq> frame 24" using frame_inj [of 25 24] by auto
    with True show ?thesis by (simp add: shown_def f)
  next
    case False
    show ?thesis
    proof (cases "j \<le> 19")
      case True
      have lt: "24 - j < 256" by simp
      have ne: "24 - j \<noteq> 24" using \<open>j \<noteq> 0\<close> True by simp
      have "frame (24 - j) \<noteq> frame 24" using frame_inj [OF lt, of 24] ne by auto
      with \<open>j \<noteq> 0\<close> True some [of j] show ?thesis by simp
    next
      case False
      with bottom [of j] frame_not_blank [of 24] show ?thesis by auto
    qed
  qed
  have "shown ?s = Some (frame 25)" by (simp add: shown_def f)
  moreover have "shown (undo ?s) = Some (frame 23)" using some [of 1] by simp
  moreover have "shown ((undo ^^ 19) ?s) = Some (frame 5)" using some [of 19] by simp
  moreover have "shown ((undo ^^ 20) ?s) = Some blank" using bottom [of 20] by simp
  moreover have "last (historyRef ?s) = frame 24" by (simp add: f last_map)
  ultimately show ?thesis using never f afterTwentyFive_run(1) by blast
qed

section \<open>Pixels and bytes\<close>

lemma colorsMatch_eq: "colorsMatch a b \<longleftrightarrow> a = b"
  by (cases a; cases b) auto

lemma fill_loop_Nil: "fill_loop w h T F d [] = Some d"
  by (subst fill_loop.simps) simp

lemma fill_loop_step:
  "fill_loop w h T F d (c # rest)
     = (case fill_step w h T F (d, c # rest, tr) of (d', q', tr') \<Rightarrow> fill_loop w h T F d' q')"
  by (subst fill_loop.simps)
    (auto simp: fill_step_def inBounds_def pixelAt_def getPixelColor_def neighbours_def Let_def
      colorsMatch_eq pixelIndex_def)

lemma fill_loop_trace_Nil: "fill_loop_trace w h T F d [] tr = Some (d, tr)"
  by (subst fill_loop_trace.simps) simp

lemma fill_loop_trace_step:
  "fill_loop_trace w h T F d (c # rest) tr
     = (case fill_step w h T F (d, c # rest, tr) of
          (d', q', tr') \<Rightarrow> fill_loop_trace w h T F d' q' tr')"
  by (subst fill_loop_trace.simps)
    (auto simp: fill_step_def inBounds_def pixelAt_def getPixelColor_def neighbours_def Let_def
      colorsMatch_eq pixelIndex_def)

lemma index_range:
  assumes "inBounds w h p"
  shows "0 \<le> snd p * int w + fst p" and "snd p * int w + fst p < int (w * h)"
proof -
  from assms have x: "0 \<le> fst p" "fst p < int w" and y: "0 \<le> snd p" "snd p + 1 \<le> int h"
    by (auto simp: inBounds_def)
  from y(1) show "0 \<le> snd p * int w + fst p" using x(1) by simp
  have "(snd p + 1) * int w \<le> int h * int w"
    using y(2) by (rule mult_right_mono) simp
  then show "snd p * int w + fst p < int (w * h)"
    using x(2) by (simp add: algebra_simps)
qed

lemma index_inj:
  assumes "inBounds w h p" "inBounds w h q"
    and "snd p * int w + fst p = snd q * int w + fst q"
  shows "p = q"
proof -
  have less: "False" if "inBounds w h a" "inBounds w h b" "snd a < snd b"
    "snd a * int w + fst a = snd b * int w + fst b" for a b :: "int \<times> int"
  proof -
    from that have "(snd a + 1) * int w \<le> snd b * int w"
      by (intro mult_right_mono) auto
    moreover from that have "fst a < int w" "0 \<le> fst b" by (auto simp: inBounds_def)
    ultimately show False using that(4) by (simp add: algebra_simps)
  qed
  have "snd p = snd q"
    using less [of p q] less [of q p] assms by (cases "snd p" "snd q" rule: linorder_cases) auto
  with assms(3) show ?thesis by (simp add: prod_eq_iff)
qed

lemma offset_props:
  assumes "inBounds w h p"
  shows "(snd p * int w + fst p) * 4 = int (4 * offset w p)" and "offset w p < w * h"
proof -
  note r = index_range [OF assms]
  from r(1) show "(snd p * int w + fst p) * 4 = int (4 * offset w p)"
    by (simp add: offset_def)
  from r show "offset w p < w * h"
    unfolding offset_def by linarith
qed

lemma offset_inj:
  "inBounds w h p \<Longrightarrow> inBounds w h q \<Longrightarrow> offset w p = offset w q \<Longrightarrow> p = q"
  using index_range(1) [of w h p] index_range(1) [of w h q] index_inj [of w h p q]
  by (simp add: offset_def)

lemma pixelAt_offset:
  assumes "inBounds w h p" "length d = w * h * 4"
  shows "pixelAt w d p = (Some (d ! (4 * offset w p)), Some (d ! (4 * offset w p + 1)),
                          Some (d ! (4 * offset w p + 2)), Some (d ! (4 * offset w p + 3)))"
proof -
  note o = offset_props [OF assms(1)]
  have n: "nat (int (4 * offset w p) + 1) = 4 * offset w p + 1"
    "nat (int (4 * offset w p) + 2) = 4 * offset w p + 2"
    "nat (int (4 * offset w p) + 3) = 4 * offset w p + 3" by simp_all
  show ?thesis
    unfolding pixelAt_def getPixelColor_def Let_def o(1) data_get_def
    using o(2) assms(2) by (simp add: n del: of_nat_mult of_nat_add)
qed

lemma length_paintPixel: "length (paintPixel d i F) = length d"
  by (cases F) (simp add: paintPixel_def data_set_def)

lemma paintPixel_offset:
  assumes "inBounds w h p" "length d = w * h * 4"
  shows "paintPixel d (pixelIndex w p) (f0, f1, f2, f3)
         = d[4 * offset w p := f0, 4 * offset w p + 1 := f1, 4 * offset w p + 2 := f2,
             4 * offset w p + 3 := f3]"
proof -
  note o = offset_props [OF assms(1)]
  have n: "nat (int (4 * offset w p) + 1) = 4 * offset w p + 1"
    "nat (int (4 * offset w p) + 2) = 4 * offset w p + 2"
    "nat (int (4 * offset w p) + 3) = 4 * offset w p + 3" by simp_all
  show ?thesis
    unfolding paintPixel_def pixelIndex_def o(1) data_set_def
    using o(2) assms(2) by (simp add: n del: of_nat_mult of_nat_add)
qed

lemma pixelAt_paintPixel:
  assumes "inBounds w h p" "inBounds w h q" "length d = w * h * 4"
  shows "pixelAt w (paintPixel d (pixelIndex w p) F) q
         = (if q = p then numbers F else pixelAt w d q)"
proof -
  obtain f0 f1 f2 f3 where F: "F = (f0, f1, f2, f3)" by (cases F)
  let ?i = "4 * offset w p"
  let ?d' = "d[?i := f0, ?i + 1 := f1, ?i + 2 := f2, ?i + 3 := f3]"
  have d': "paintPixel d (pixelIndex w p) F = ?d'"
    unfolding F by (rule paintPixel_offset [OF assms(1,3)])
  have len: "length ?d' = w * h * 4" using assms(3) by simp
  note op = offset_props(2) [OF assms(1)] and oq = offset_props(2) [OF assms(2)]
  note A = pixelAt_offset [OF assms(2) len] and B = pixelAt_offset [OF assms(2,3)]
  show ?thesis
  proof (cases "q = p")
    case True
    have "(Some (?d' ! (4 * offset w p)), Some (?d' ! (4 * offset w p + 1)),
           Some (?d' ! (4 * offset w p + 2)), Some (?d' ! (4 * offset w p + 3)))
          = numbers F"
      using op assms(3) by (simp add: F numbers_def)
    with True show ?thesis unfolding d' A by simp
  next
    case False
    with offset_inj [OF assms(2,1)] have ne: "offset w q \<noteq> offset w p" by blast
    have "(Some (?d' ! (4 * offset w q)), Some (?d' ! (4 * offset w q + 1)),
           Some (?d' ! (4 * offset w q + 2)), Some (?d' ! (4 * offset w q + 3)))
          = pixelAt w d q"
      unfolding B using ne oq op assms(3) by simp
    with False show ?thesis unfolding d' A by simp
  qed
qed

section \<open>The loop ends\<close>

lemma inBounds_set: "{p. inBounds w h p} = {0..<int w} \<times> {0..<int h}"
  by (auto simp: inBounds_def)

lemma finite_inBounds: "finite {p. inBounds w h p}"
  by (simp add: inBounds_set)

lemma card_inBounds: "card {p. inBounds w h p} = w * h"
  by (simp add: inBounds_set)

lemma finite_matching: "finite (matching w h T d)"
  by (rule finite_subset [OF _ finite_inBounds [of w h]]) (auto simp: matching_def)

lemma matching_paint:
  assumes "inBounds w h c" "length d = w * h * 4" "T \<noteq> numbers F"
  shows "matching w h T (paintPixel d (pixelIndex w c) F) = matching w h T d - {c}"
  using assms by (auto simp: matching_def pixelAt_paintPixel)

lemma fill_step_decreases:
  assumes "length d = w * h * 4" "T \<noteq> numbers F"
    and "fill_step w h T F (d, c # rest, tr) = (d', q', tr')"
  shows "5 * card (matching w h T d') + length q' < 5 * card (matching w h T d) + length (c # rest)"
    and "length d' = w * h * 4"
proof -
  show "length d' = w * h * 4"
    using assms by (auto simp: fill_step_def length_paintPixel split: if_splits)
  show "5 * card (matching w h T d') + length q' < 5 * card (matching w h T d) + length (c # rest)"
  proof (cases "inBounds w h c \<and> pixelAt w d c = T")
    case True
    then have "c \<in> matching w h T d" by (simp add: matching_def)
    then have "card (matching w h T d - {c}) < card (matching w h T d)"
      using finite_matching by (metis card_Diff1_less)
    moreover from True assms have "d' = paintPixel d (pixelIndex w c) F"
      "q' = rest @ neighbours c"
      by (auto simp: fill_step_def)
    ultimately show ?thesis
      using True assms(1,2) by (simp add: matching_paint neighbours_def)
  next
    case False
    with assms show ?thesis by (auto simp: fill_step_def split: if_splits)
  qed
qed

text \<open>
  Both loops return, with the same data, and an invariant of the iteration holds of the
  result.
\<close>

lemma fill_loop_rule:
  assumes "T \<noteq> numbers F"
    and pres: "\<And>st. I st \<Longrightarrow> length (fst st) = w * h * 4 \<Longrightarrow> fst (snd st) \<noteq> []
                  \<Longrightarrow> I (fill_step w h T F st)"
  shows "I (d, q, tr) \<Longrightarrow> length d = w * h * 4
         \<Longrightarrow> \<exists>d' tr'. fill_loop_trace w h T F d q tr = Some (d', tr')
                      \<and> fill_loop w h T F d q = Some d' \<and> I (d', [], tr')
                      \<and> length d' = w * h * 4"
proof (induction "5 * card (matching w h T d) + length q" arbitrary: d q tr rule: less_induct)
  case less
  show ?case
  proof (cases q)
    case Nil
    with less.prems show ?thesis by (simp add: fill_loop_Nil fill_loop_trace_Nil)
  next
    case (Cons c rest)
    obtain d1 q1 tr1 where st: "fill_step w h T F (d, c # rest, tr) = (d1, q1, tr1)"
      by (cases "fill_step w h T F (d, c # rest, tr)") auto
    note dec = fill_step_decreases [OF less.prems(2) assms(1) st]
    have "I (d1, q1, tr1)"
      using pres [of "(d, c # rest, tr)"] less.prems Cons st by simp
    from less.hyps [OF _ this dec(2)] dec(1) Cons
    have "\<exists>d' tr'. fill_loop_trace w h T F d1 q1 tr1 = Some (d', tr')
                      \<and> fill_loop w h T F d1 q1 = Some d' \<and> I (d', [], tr')
                      \<and> length d' = w * h * 4" by simp
    then show ?thesis
      by (simp add: Cons fill_loop_trace_step fill_loop_step [of _ _ _ _ _ _ _ tr] st)
  qed
qed

section \<open>The invariants of the loop\<close>

lemma painted_snoc [simp]:
  "painted (tr @ [(c, True)]) = painted tr @ [c]" "painted (tr @ [(c, False)]) = painted tr"
  "painted [] = []"
  by (simp_all add: painted_def)

lemma dequeued_snoc [simp]: "dequeued (tr @ [(c, b)]) = dequeued tr @ [c]" "dequeued [] = []"
  by (simp_all add: dequeued_def)

lemma count_neighbours: "count_list (neighbours p) c = (if c \<in> set (neighbours p) then 1 else 0)"
  by (auto simp: neighbours_def)

lemma fill_step_cases:
  "fill_step w h T F (d, c # rest, tr) =
     (if inBounds w h c \<and> pixelAt w d c = T
      then (paintPixel d (pixelIndex w c) F, rest @ neighbours c, tr @ [(c, True)])
      else (d, rest, tr @ [(c, False)]))"
  by (simp add: fill_step_def)

lemma count_inv_step:
  assumes "T \<noteq> numbers F" "count_inv w h seed F st" "length (fst st) = w * h * 4"
    "fst (snd st) \<noteq> []"
  shows "count_inv w h seed F (fill_step w h T F st)"
proof -
  obtain d c rest tr where st: "st = (d, c # rest, tr)"
    using assms(4) by (cases st; cases "fst (snd st)") auto
  from assms(2) have inv: "length tr + length (c # rest) = 1 + 4 * length (painted tr)
      \<and> distinct (painted tr)
      \<and> (\<forall>p \<in> set (painted tr). inBounds w h p \<and> pixelAt w d p = numbers F)
      \<and> (\<forall>x. count_list (dequeued tr) x + count_list (c # rest) x
                 = (if x = seed then 1 else 0)
                   + length (filter (\<lambda>p. x \<in> set (neighbours p)) (painted tr)))"
    unfolding count_inv_def st prod.case .
  then have a: "length tr + length (c # rest) = 1 + 4 * length (painted tr)"
    and b: "distinct (painted tr)"
    and cF: "\<forall>p \<in> set (painted tr). inBounds w h p \<and> pixelAt w d p = numbers F"
    and cnt: "\<And>x. count_list (dequeued tr) x + count_list (c # rest) x
                 = (if x = seed then 1 else 0)
                   + length (filter (\<lambda>p. x \<in> set (neighbours p)) (painted tr))"
    by blast+
  have len: "length d = w * h * 4" using assms(3) st by simp
  show ?thesis
  proof (cases "inBounds w h c \<and> pixelAt w d c = T")
    case True
    with cF assms(1) have new: "c \<notin> set (painted tr)" by auto
    have cF': "\<forall>p \<in> set (painted tr @ [c]).
        inBounds w h p \<and> pixelAt w (paintPixel d (pixelIndex w c) F) p = numbers F"
      using cF True len by (auto simp: pixelAt_paintPixel)
    have cnt': "count_list (dequeued tr @ [c]) x + count_list (rest @ neighbours c) x
                 = (if x = seed then 1 else 0)
                   + length (filter (\<lambda>p. x \<in> set (neighbours p)) (painted tr @ [c]))" for x
    proof -
      have "count_list (dequeued tr @ [c]) x + count_list (rest @ neighbours c) x
            = (count_list (dequeued tr) x + count_list (c # rest) x)
              + (if x \<in> set (neighbours c) then 1 else 0)"
        by (simp add: count_neighbours)
      moreover have "length (filter (\<lambda>p. x \<in> set (neighbours p)) (painted tr @ [c]))
            = length (filter (\<lambda>p. x \<in> set (neighbours p)) (painted tr))
              + (if x \<in> set (neighbours c) then 1 else 0)"
        by simp
      ultimately show ?thesis using cnt [of x] by linarith
    qed
    have a': "length (tr @ [(c, True)]) + length (rest @ neighbours c)
              = 1 + 4 * length (painted tr @ [c])"
      using a by (simp add: neighbours_def)
    have b': "distinct (painted tr @ [c])" using b new by simp
    have step: "fill_step w h T F (d, c # rest, tr)
        = (paintPixel d (pixelIndex w c) F, rest @ neighbours c, tr @ [(c, True)])"
      using True by (simp add: fill_step_cases)
    show ?thesis
      unfolding st step count_inv_def prod.case painted_snoc dequeued_snoc
      using a' b' cF' cnt' by blast
  next
    case False
    have cnt': "count_list (dequeued tr @ [c]) x + count_list rest x
                 = (if x = seed then 1 else 0)
                   + length (filter (\<lambda>p. x \<in> set (neighbours p)) (painted tr))" for x
    proof -
      have "count_list (dequeued tr @ [c]) x + count_list rest x
            = count_list (dequeued tr) x + count_list (c # rest) x"
        by simp
      then show ?thesis using cnt [of x] by linarith
    qed
    have a': "length (tr @ [(c, False)]) + length rest = 1 + 4 * length (painted tr)"
      using a by simp
    have step: "fill_step w h T F (d, c # rest, tr) = (d, rest, tr @ [(c, False)])"
      using False by (simp add: fill_step_cases)
    show ?thesis
      unfolding st step count_inv_def prod.case painted_snoc dequeued_snoc
      using a' b cF cnt' by blast
  qed
qed

lemma region_colour:
  "p \<in> region w h D seed \<Longrightarrow> inBounds w h p \<and> pixelAt w D p = pixelAt w D seed"
  by (induction rule: region.induct) auto

lemma region_inv_step:
  assumes "T \<noteq> numbers F" "T = pixelAt w D seed" "inBounds w h seed"
    and "region_inv w h D seed F st" "length (fst st) = w * h * 4" "fst (snd st) \<noteq> []"
  shows "region_inv w h D seed F (fill_step w h T F st)"
proof -
  obtain d c rest tr where st: "st = (d, c # rest, tr)"
    using assms(6) by (cases st; cases "fst (snd st)") auto
  let ?P = "set (painted tr)"
  let ?R = "region w h D seed"
  from assms(4) have inv: "(\<forall>p. inBounds w h p
              \<longrightarrow> pixelAt w d p = (if p \<in> ?P then numbers F else pixelAt w D p))
        \<and> ?P \<subseteq> ?R
        \<and> (\<forall>x \<in> set (c # rest). x = seed \<or> (\<exists>p \<in> ?P. x \<in> set (neighbours p)))
        \<and> (seed \<in> ?P \<or> seed \<in> set (c # rest))
        \<and> (\<forall>p \<in> ?P. \<forall>n \<in> set (neighbours p). n \<in> ?R \<longrightarrow> n \<in> ?P \<or> n \<in> set (c # rest))"
    unfolding region_inv_def st prod.case .
  then have e: "\<And>p. inBounds w h p
        \<Longrightarrow> pixelAt w d p = (if p \<in> ?P then numbers F else pixelAt w D p)"
    and f: "?P \<subseteq> ?R"
    and g: "\<And>x. x \<in> set (c # rest) \<Longrightarrow> x = seed \<or> (\<exists>p \<in> ?P. x \<in> set (neighbours p))"
    and hh: "seed \<in> ?P \<or> seed \<in> set (c # rest)"
    and i: "\<And>p n. p \<in> ?P \<Longrightarrow> n \<in> set (neighbours p) \<Longrightarrow> n \<in> ?R
              \<Longrightarrow> n \<in> ?P \<or> n \<in> set (c # rest)"
    by blast+
  have len: "length d = w * h * 4" using assms(5) st by simp
  show ?thesis
  proof (cases "inBounds w h c \<and> pixelAt w d c = T")
    case True
    then have inb: "inBounds w h c" and col: "pixelAt w d c = T" by simp_all
    from e [OF inb] col assms(1) have new: "c \<notin> ?P" and orig: "pixelAt w D c = T"
      by (auto split: if_splits)
    have cR: "c \<in> ?R"
    proof (cases "c = seed")
      case True
      with assms(3) show ?thesis by (simp add: region.seed)
    next
      case False
      with g [of c] obtain p where "p \<in> ?P" "c \<in> set (neighbours p)" by auto
      with f inb orig assms(2) show ?thesis by (auto intro: region.step)
    qed
    have e': "\<And>p. inBounds w h p \<Longrightarrow> pixelAt w (paintPixel d (pixelIndex w c) F) p
          = (if p \<in> set (painted tr @ [c]) then numbers F else pixelAt w D p)"
      using e inb len by (simp add: pixelAt_paintPixel)
    have g': "\<And>x. x \<in> set (rest @ neighbours c)
          \<Longrightarrow> x = seed \<or> (\<exists>p \<in> set (painted tr @ [c]). x \<in> set (neighbours p))"
      using g by auto
    have h': "seed \<in> set (painted tr @ [c]) \<or> seed \<in> set (rest @ neighbours c)"
      using hh by auto
    have i': "\<And>p n. p \<in> set (painted tr @ [c]) \<Longrightarrow> n \<in> set (neighbours p) \<Longrightarrow> n \<in> ?R
              \<Longrightarrow> n \<in> set (painted tr @ [c]) \<or> n \<in> set (rest @ neighbours c)"
      using i by auto
    have f': "set (painted tr @ [c]) \<subseteq> ?R" using f cR by simp
    have step: "fill_step w h T F (d, c # rest, tr)
        = (paintPixel d (pixelIndex w c) F, rest @ neighbours c, tr @ [(c, True)])"
      using True by (simp add: fill_step_cases)
    show ?thesis
      unfolding st step region_inv_def prod.case painted_snoc
      using e' f' g' h' i' by blast
  next
    case False
    have skip: "x \<in> ?P" if "x = c" "x \<in> ?R" for x
    proof -
      from region_colour [OF that(2)] have "inBounds w h x" "pixelAt w D x = T"
        using assms(2) by simp_all
      with e [of x] False that(1) show ?thesis by (auto split: if_splits)
    qed
    have h': "seed \<in> ?P \<or> seed \<in> set rest"
      using hh skip [of seed] assms(3) by (auto simp: region.seed)
    have i': "\<And>p n. p \<in> ?P \<Longrightarrow> n \<in> set (neighbours p) \<Longrightarrow> n \<in> ?R
              \<Longrightarrow> n \<in> ?P \<or> n \<in> set rest"
      using i skip by auto
    have g': "\<And>x. x \<in> set rest \<Longrightarrow> x = seed \<or> (\<exists>p \<in> ?P. x \<in> set (neighbours p))"
      using g by auto
    have step: "fill_step w h T F (d, c # rest, tr) = (d, rest, tr @ [(c, False)])"
      using False by (simp add: fill_step_cases)
    show ?thesis
      unfolding st step region_inv_def prod.case painted_snoc
      using e f g' h' i' by blast
  qed
qed

lemma region_inv_final:
  assumes "region_inv w h D seed F (d, [], tr)"
  shows "set (painted tr) = region w h D seed"
proof
  from assms show "set (painted tr) \<subseteq> region w h D seed" by (simp add: region_inv_def)
  show "region w h D seed \<subseteq> set (painted tr)"
  proof
    fix p assume "p \<in> region w h D seed"
    then show "p \<in> set (painted tr)"
    proof (induction rule: region.induct)
      case seed
      with assms show ?case by (simp add: region_inv_def)
    next
      case (step p q)
      from region.step [OF step.hyps(1,2,3,4)] have "q \<in> region w h D seed" .
      with assms step.IH step.hyps(2) show ?case by (simp add: region_inv_def)
    qed
  qed
qed

lemma fill_loop_result:
  assumes "length D = w * h * 4" "T \<noteq> numbers F"
  shows "\<exists>d' tr. fill_loop_trace w h T F D [seed] [] = Some (d', tr)
           \<and> fill_loop w h T F D [seed] = Some d' \<and> length d' = w * h * 4
           \<and> count_inv w h seed F (d', [], tr)
           \<and> (inBounds w h seed \<and> T = pixelAt w D seed \<longrightarrow> region_inv w h D seed F (d', [], tr))"
proof -
  let ?I = "\<lambda>st. count_inv w h seed F st
     \<and> (inBounds w h seed \<and> T = pixelAt w D seed \<longrightarrow> region_inv w h D seed F st)"
  have init: "?I (D, [seed], [])"
    by (simp add: count_inv_def region_inv_def)
  have pres: "?I (fill_step w h T F st)"
    if "?I st" "length (fst st) = w * h * 4" "fst (snd st) \<noteq> []" for st
    using that count_inv_step [OF assms(2), of w h seed st]
      region_inv_step [OF assms(2), of w D seed h st] by blast
  from fill_loop_rule [of T F ?I w h D "[seed]" "[]", OF assms(2) pres init assms(1)]
  show ?thesis by blast
qed

lemma neighbours_sym: "c \<in> set (neighbours p) \<longleftrightarrow> p \<in> set (neighbours c)"
  by (cases c; cases p) (auto simp: neighbours_def)

lemma painted_neighbours_le:
  assumes "distinct P"
  shows "length (filter (\<lambda>p. c \<in> set (neighbours p)) P) \<le> 4"
proof -
  let ?N = "filter (\<lambda>p. c \<in> set (neighbours p)) P"
  have "distinct ?N" using assms by simp
  then have "length ?N = card (set ?N)" by (rule distinct_card [symmetric])
  also have "\<dots> \<le> card (set (neighbours c))"
    by (rule card_mono) (auto simp: neighbours_sym [of c])
  also have "\<dots> \<le> length (neighbours c)" by (rule card_length)
  also have "\<dots> = 4" by (simp add: neighbours_def)
  finally show ?thesis .
qed

lemma painted_length_le:
  assumes "distinct P" "\<forall>p \<in> set P. inBounds w h p"
  shows "length P \<le> w * h"
proof -
  have "length P = card (set P)" using assms(1) by (rule distinct_card [symmetric])
  also have "\<dots> \<le> card {p. inBounds w h p}"
    using assms(2) by (intro card_mono finite_inBounds) auto
  finally show ?thesis by (simp add: card_inBounds)
qed

section \<open>Flood fill recolours the region of the seed\<close>

text \<open>
  C3. For a buffer of \<open>w\<close> by \<open>h\<close> pixels and a seed inside it whose colour differs from
  the fill colour, \<^verbatim>\<open>fillFlood\<close> returns; the buffer keeps its size; a pixel has the
  fill colour afterwards if it is in the 4-connected closure of the pixels that had
  exactly the seed's colour, and its old colour otherwise; every pixel of the closure had
  a colour other than the fill colour, so it has changed; the pixels recoloured are
  exactly those of the closure, each recoloured once; and a coordinate outside the
  buffer that is taken from the queue is skipped.
\<close>

theorem fillFlood_fills_region:
  assumes "length data = w * h * 4" "inBounds w h (x, y)"
    and "\<not> colorsMatch (getPixelColor w data x y) (numbers F)"
  shows "\<exists>data' tr.
           fillFlood_trace w h data x y F = Some (data', tr)
           \<and> fillFlood w h data x y F = Some data'
           \<and> length data' = length data
           \<and> (\<forall>p. inBounds w h p
                 \<longrightarrow> pixelAt w data' p
                     = (if p \<in> region w h data (x, y) then numbers F else pixelAt w data p))
           \<and> (\<forall>p \<in> region w h data (x, y). pixelAt w data p \<noteq> numbers F)
           \<and> set (painted tr) = region w h data (x, y)
           \<and> distinct (painted tr)
           \<and> (\<forall>e \<in> set tr. \<not> inBounds w h (fst e) \<longrightarrow> \<not> snd e)"
proof -
  let ?T = "getPixelColor w data x y"
  let ?R = "region w h data (x, y)"
  have T: "?T \<noteq> numbers F" "?T = pixelAt w data (x, y)"
    using assms(3) by (simp_all add: colorsMatch_eq pixelAt_def)
  from fill_loop_result [where seed = "(x, y)" and h = h, OF assms(1) T(1)] assms(2) T(2)
  obtain d' tr where run: "fill_loop_trace w h ?T F data [(x, y)] [] = Some (d', tr)"
    and run0: "fill_loop w h ?T F data [(x, y)] = Some d'"
    and len: "length d' = w * h * 4"
    and ci: "count_inv w h (x, y) F (d', [], tr)"
    and ri: "region_inv w h data (x, y) F (d', [], tr)"
    by blast
  have tr: "fillFlood_trace w h data x y F = Some (d', tr)"
    using assms(3) run by (simp add: fillFlood_trace_def)
  have ff: "fillFlood w h data x y F = Some d'"
    using assms(3) run0 by (simp add: fillFlood_def)
  have reg: "set (painted tr) = ?R" using ri by (rule region_inv_final)
  have pix: "\<forall>p. inBounds w h p
       \<longrightarrow> pixelAt w d' p = (if p \<in> ?R then numbers F else pixelAt w data p)"
    using ri reg unfolding region_inv_def prod.case by simp
  have changed: "\<forall>p \<in> ?R. pixelAt w data p \<noteq> numbers F"
    using region_colour [of _ w h data "(x, y)"] T by auto
  have dist: "distinct (painted tr)" using ci unfolding count_inv_def prod.case by blast
  have oob: "\<forall>e \<in> set tr. \<not> inBounds w h (fst e) \<longrightarrow> \<not> snd e"
  proof (intro ballI impI notI)
    fix e assume "e \<in> set tr" "\<not> inBounds w h (fst e)" "snd e"
    then have "fst e \<in> set (painted tr)" by (auto simp: painted_def)
    with reg region_colour [of "fst e" w h data "(x, y)"] \<open>\<not> inBounds w h (fst e)\<close>
    show False by simp
  qed
  from tr ff len assms(1) pix changed reg dist oob show ?thesis
    by auto
qed

lemma example_run:
  "fillFlood_trace 2 2 [255, 255, 255, 255, 0, 0, 0, 255, 255, 255, 255, 255, 255, 255, 255, 255]
     0 0 (1, 2, 3, 255)
   = Some ([1, 2, 3, 255, 0, 0, 0, 255, 1, 2, 3, 255, 1, 2, 3, 255],
      [((0, 0), True), ((- 1, 0), False), ((1, 0), False), ((0, - 1), False), ((0, 1), True),
       ((- 1, 1), False), ((1, 1), True), ((0, 0), False), ((0, 2), False), ((0, 1), False),
       ((2, 1), False), ((1, 0), False), ((1, 2), False)])"
  by (simp add: fillFlood_trace_def getPixelColor_def data_get_def data_set_def numbers_def
      fill_loop_trace.simps paintPixel_def)

theorem fillFlood_fills_region_witness:
  "length [255, 255, 255, 255, 0, 0, 0, 255, 255, 255, 255, 255, 255, 255, 255, 255 :: byte]
     = 2 * 2 * 4
   \<and> inBounds 2 2 (0, 0)
   \<and> \<not> colorsMatch
         (getPixelColor 2 [255, 255, 255, 255, 0, 0, 0, 255, 255, 255, 255, 255, 255, 255, 255, 255]
            0 0)
         (numbers (1, 2, 3, 255))
   \<and> fillFlood 2 2 [255, 255, 255, 255, 0, 0, 0, 255, 255, 255, 255, 255, 255, 255, 255, 255]
         0 0 (1, 2, 3, 255)
       = Some [1, 2, 3, 255, 0, 0, 0, 255, 1, 2, 3, 255, 1, 2, 3, 255]
   \<and> region 2 2 [255, 255, 255, 255, 0, 0, 0, 255, 255, 255, 255, 255, 255, 255, 255, 255] (0, 0)
       = {(0, 0), (0, 1), (1, 1)}"
proof -
  let ?d = "[255, 255, 255, 255, 0, 0, 0, 255, 255, 255, 255, 255, 255, 255, 255, 255 :: byte]"
  have len: "length ?d = 2 * 2 * 4" by simp
  have inb: "inBounds 2 2 (0, 0)" by (simp add: inBounds_def)
  have ne: "\<not> colorsMatch (getPixelColor 2 ?d 0 0) (numbers (1, 2, 3, 255))"
    by (simp add: getPixelColor_def data_get_def numbers_def)
  from fillFlood_fills_region [OF len inb ne]
  obtain data' tr where r: "fillFlood_trace 2 2 ?d 0 0 (1, 2, 3, 255) = Some (data', tr)"
    "fillFlood 2 2 ?d 0 0 (1, 2, 3, 255) = Some data'"
    "set (painted tr) = region 2 2 ?d (0, 0)"
    by blast
  from r(1) have "data' = [1, 2, 3, 255, 0, 0, 0, 255, 1, 2, 3, 255, 1, 2, 3, 255]"
    and "painted tr = [(0, 0), (0, 1), (1, 1)]"
    unfolding example_run by (auto simp: painted_def)
  with r(2,3) len inb ne show ?thesis by auto
qed

section \<open>Flood fill returns at an integer seed\<close>

text \<open>
  At an integer seed: for every buffer of \<open>w\<close> by \<open>h\<close> pixels, every integer seed and
  every fill colour, \<^verbatim>\<open>fillFlood\<close> returns. No pixel is recoloured twice, so at most
  \<open>w * h\<close> pixels are recoloured; no coordinate is taken from the queue more than five
  times (once for each recoloured neighbour, once more for the seed); and the loop makes
  at most \<open>1 + 4 * w * h\<close> iterations.
\<close>

lemma fillFlood_returns:
  assumes "length data = w * h * 4"
  shows "\<exists>data' tr.
           fillFlood_trace w h data x y F = Some (data', tr)
           \<and> fillFlood w h data x y F = Some data'
           \<and> distinct (painted tr)
           \<and> length (painted tr) \<le> w * h
           \<and> (\<forall>c. count_list (dequeued tr) c \<le> 5)
           \<and> length tr \<le> 1 + 4 * (w * h)"
proof (cases "colorsMatch (getPixelColor w data x y) (numbers F)")
  case True
  then show ?thesis by (simp add: fillFlood_def fillFlood_trace_def)
next
  case False
  let ?T = "getPixelColor w data x y"
  from False have T: "?T \<noteq> numbers F" by (simp add: colorsMatch_eq)
  from fill_loop_result [where seed = "(x, y)" and h = h, OF assms T]
  obtain d' tr where run: "fill_loop_trace w h ?T F data [(x, y)] [] = Some (d', tr)"
    and run0: "fill_loop w h ?T F data [(x, y)] = Some d'"
    and ci: "count_inv w h (x, y) F (d', [], tr)"
    by blast
  have tr: "fillFlood_trace w h data x y F = Some (d', tr)"
    using False run by (simp add: fillFlood_trace_def)
  have ff: "fillFlood w h data x y F = Some d'"
    using False run0 by (simp add: fillFlood_def)
  from ci [unfolded count_inv_def prod.case]
  have steps: "length tr + length ([] :: (int \<times> int) list) = 1 + 4 * length (painted tr)"
    and dist: "distinct (painted tr)"
    and inb: "\<forall>p \<in> set (painted tr). inBounds w h p"
    and cnt: "\<And>c. count_list (dequeued tr) c + count_list [] c
        = (if c = (x, y) then 1 else 0)
          + length (filter (\<lambda>p. c \<in> set (neighbours p)) (painted tr))"
    by blast+
  have few: "length (painted tr) \<le> w * h" using dist inb by (rule painted_length_le)
  have each: "count_list (dequeued tr) c \<le> 5" for c
    using cnt [of c] painted_neighbours_le [OF dist, of c] by (cases "c = (x, y)") auto
  from tr ff dist few each steps show ?thesis
    by auto
qed

lemma fillFlood_returns_example:
  "length [255, 255, 255, 255, 0, 0, 0, 255, 255, 255, 255, 255, 255, 255, 255, 255 :: byte]
     = 2 * 2 * 4
   \<and> (\<exists>data' tr.
         fillFlood_trace 2 2
           [255, 255, 255, 255, 0, 0, 0, 255, 255, 255, 255, 255, 255, 255, 255, 255] 1 0
           (9, 9, 9, 255) = Some (data', tr)
         \<and> fillFlood 2 2
             [255, 255, 255, 255, 0, 0, 0, 255, 255, 255, 255, 255, 255, 255, 255, 255] 1 0
             (9, 9, 9, 255) = Some data'
         \<and> distinct (painted tr)
         \<and> length (painted tr) \<le> 2 * 2
         \<and> (\<forall>c. count_list (dequeued tr) c \<le> 5)
         \<and> length tr \<le> 1 + 4 * (2 * 2))"
proof -
  have len: "length [255, 255, 255, 255, 0, 0, 0, 255, 255, 255, 255, 255, 255, 255, 255, 255 :: byte]
     = 2 * 2 * 4" by simp
  from fillFlood_returns [OF len, of 1 0 "(9, 9, 9, 255)"] len show ?thesis
    by blast
qed

section \<open>Flood fill does not return at the seed NaN\<close>

text \<open>
  On integer coordinates the loop on numbers is the loop on integers, so the results
  about integer seeds hold of it.
\<close>

lemma paintPixel_number_Finite: "paintPixel_number data (Finite i) F = paintPixel data i F"
  by (cases F) (simp add: paintPixel_number_def paintPixel_def)

lemma fill_loop_number_step:
  "fill_loop_number w h T F data (finite_coord c # rest) =
     (if \<not> inBounds w h c then fill_loop_number w h T F data rest
      else if pixelAt w data c = T
      then fill_loop_number w h T F (paintPixel data (pixelIndex w c) F)
             (rest @ map finite_coord (neighbours c))
      else fill_loop_number w h T F data rest)"
  by (subst fill_loop_number.simps)
    (auto simp: finite_coord_def inBounds_def pixelAt_def getPixelColor_def pixelIndex_def
      neighbours_def number_minus_def paintPixel_number_Finite colorsMatch_eq Let_def)

lemma fill_loop_to_number:
  assumes "fill_loop w h T F data q = Some r"
  shows "fill_loop_number w h T F data (map finite_coord q) = Some r"
proof (rule fill_loop.raw_induct
    [where P = "\<lambda>w h T F data q r. fill_loop_number w h T F data (map finite_coord q) = Some r",
      OF _ assms])
  fix loop :: "nat \<Rightarrow> nat \<Rightarrow> color \<Rightarrow> rgba \<Rightarrow> byte list \<Rightarrow> (int \<times> int) list \<Rightarrow> byte list option"
  fix w h T F data q r
  assume IH: "\<And>w h T F data q r. loop w h T F data q = Some r
      \<Longrightarrow> fill_loop_number w h T F data (map finite_coord q) = Some r"
  assume body: "(case q of
        [] \<Rightarrow> Some data
      | c # rest \<Rightarrow>
          (let cx = fst c; cy = snd c in
           if cx < 0 \<or> cx \<ge> int w \<or> cy < 0 \<or> cy \<ge> int h
           then loop w h T F data rest
           else
             (let idx = (cy * int w + cx) * 4;
                  currentColor = (data_get data idx, data_get data (idx + 1),
                                  data_get data (idx + 2), data_get data (idx + 3))
              in if colorsMatch currentColor T
                 then loop w h T F
                        (paintPixel data idx F)
                        (rest @ [(cx - 1, cy), (cx + 1, cy), (cx, cy - 1), (cx, cy + 1)])
                 else loop w h T F data rest))) = Some r" (is "?B = _")
  show "fill_loop_number w h T F data (map finite_coord q) = Some r"
  proof (cases q)
    case Nil
    with body show ?thesis by (simp add: fill_loop_number.simps)
  next
    case (Cons c rest)
    have "?B = (if \<not> inBounds w h c then loop w h T F data rest
        else if pixelAt w data c = T
        then loop w h T F (paintPixel data (pixelIndex w c) F) (rest @ neighbours c)
        else loop w h T F data rest)"
      unfolding Cons
      by (auto simp: inBounds_def pixelAt_def getPixelColor_def pixelIndex_def neighbours_def
          colorsMatch_eq Let_def)
    with body have "(if \<not> inBounds w h c then loop w h T F data rest
        else if pixelAt w data c = T
        then loop w h T F (paintPixel data (pixelIndex w c) F) (rest @ neighbours c)
        else loop w h T F data rest) = Some r" by simp
    then consider "\<not> inBounds w h c" "loop w h T F data rest = Some r"
      | "inBounds w h c" "pixelAt w data c = T"
        "loop w h T F (paintPixel data (pixelIndex w c) F) (rest @ neighbours c) = Some r"
      | "inBounds w h c" "pixelAt w data c \<noteq> T" "loop w h T F data rest = Some r"
      by (cases "inBounds w h c"; cases "pixelAt w data c = T") simp_all
    then show ?thesis
    proof cases
      case 1
      from IH [OF 1(2)] 1(1) show ?thesis by (simp add: Cons fill_loop_number_step)
    next
      case 2
      from IH [OF 2(3)] 2(1,2) show ?thesis by (simp add: Cons fill_loop_number_step)
    next
      case 3
      from IH [OF 3(3)] 3(1,2) show ?thesis by (simp add: Cons fill_loop_number_step)
    qed
  qed
qed

lemma fill_loop_from_number:
  assumes "fill_loop_number w h T F data q' = Some r"
  shows "\<forall>q. q' = map finite_coord q \<longrightarrow> fill_loop w h T F data q = Some r"
proof (rule fill_loop_number.raw_induct
    [where P = "\<lambda>w h T F data q' r.
        \<forall>q. q' = map finite_coord q \<longrightarrow> fill_loop w h T F data q = Some r",
      OF _ assms])
  fix loop :: "nat \<Rightarrow> nat \<Rightarrow> color \<Rightarrow> rgba \<Rightarrow> byte list \<Rightarrow> (number \<times> number) list \<Rightarrow> byte list option"
  fix w h T F data q' r
  assume IH: "\<And>w h T F data q' r. loop w h T F data q' = Some r
      \<Longrightarrow> \<forall>q. q' = map finite_coord q \<longrightarrow> fill_loop w h T F data q = Some r"
  assume body: "(case q' of
        [] \<Rightarrow> Some data
      | c # rest \<Rightarrow>
          (let cx = fst c; cy = snd c in
           if number_less cx (Finite 0) \<or> number_ge cx (Finite (int w))
              \<or> number_less cy (Finite 0) \<or> number_ge cy (Finite (int h))
           then loop w h T F data rest
           else
             (let idx = number_times
                          (number_plus (number_times cy (Finite (int w))) cx) (Finite 4);
                  currentColor =
                    (data_get_number data idx, data_get_number data (number_plus idx (Finite 1)),
                     data_get_number data (number_plus idx (Finite 2)),
                     data_get_number data (number_plus idx (Finite 3)))
              in if colorsMatch currentColor T
                 then loop w h T F
                        (paintPixel_number data idx F)
                        (rest @ [(number_minus cx (Finite 1), cy), (number_plus cx (Finite 1), cy),
                                 (cx, number_minus cy (Finite 1)), (cx, number_plus cy (Finite 1))])
                 else loop w h T F data rest))) = Some r" (is "?B = _")
  show "\<forall>q. q' = map finite_coord q \<longrightarrow> fill_loop w h T F data q = Some r"
  proof (intro allI impI)
    fix q assume q': "q' = map finite_coord q"
    show "fill_loop w h T F data q = Some r"
    proof (cases q)
      case Nil
      with body q' show ?thesis by (simp add: fill_loop_Nil)
    next
      case (Cons c rest)
      have step: "fill_loop w h T F data (c # rest) =
         (if \<not> inBounds w h c then fill_loop w h T F data rest
          else if pixelAt w data c = T
          then fill_loop w h T F (paintPixel data (pixelIndex w c) F) (rest @ neighbours c)
          else fill_loop w h T F data rest)"
        by (simp add: fill_loop_step [of _ _ _ _ _ _ _ "[]"] fill_step_def)
      have "?B = (if \<not> inBounds w h c then loop w h T F data (map finite_coord rest)
          else if pixelAt w data c = T
          then loop w h T F (paintPixel data (pixelIndex w c) F)
                 (map finite_coord (rest @ neighbours c))
          else loop w h T F data (map finite_coord rest))"
        unfolding q' Cons
        by (auto simp: finite_coord_def inBounds_def pixelAt_def getPixelColor_def pixelIndex_def
            neighbours_def colorsMatch_eq Let_def number_minus_def paintPixel_number_Finite)
      with body have "(if \<not> inBounds w h c then loop w h T F data (map finite_coord rest)
          else if pixelAt w data c = T
          then loop w h T F (paintPixel data (pixelIndex w c) F)
                 (map finite_coord (rest @ neighbours c))
          else loop w h T F data (map finite_coord rest)) = Some r" by simp
      then consider "\<not> inBounds w h c" "loop w h T F data (map finite_coord rest) = Some r"
        | "inBounds w h c" "pixelAt w data c = T"
          "loop w h T F (paintPixel data (pixelIndex w c) F)
             (map finite_coord (rest @ neighbours c)) = Some r"
        | "inBounds w h c" "pixelAt w data c \<noteq> T"
          "loop w h T F data (map finite_coord rest) = Some r"
        by (cases "inBounds w h c"; cases "pixelAt w data c = T") simp_all
      then show ?thesis
      proof cases
        case 1
        from IH [OF 1(2)] 1(1) show ?thesis unfolding Cons step by simp
      next
        case 2
        from IH [OF 2(3)] 2(1,2) show ?thesis unfolding Cons step by simp
      next
        case 3
        from IH [OF 3(3)] 3(1,2) show ?thesis unfolding Cons step by simp
      qed
    qed
  qed
qed

lemma fill_loop_number_Finite:
  "fill_loop_number w h T F data (map finite_coord q) = fill_loop w h T F data q"
proof (cases "fill_loop w h T F data q")
  case (Some r)
  with fill_loop_to_number [OF Some] show ?thesis by simp
next
  case None
  show ?thesis
  proof (cases "fill_loop_number w h T F data (map finite_coord q)")
    case None
    with \<open>fill_loop w h T F data q = None\<close> show ?thesis by simp
  next
    case (Some r)
    from fill_loop_from_number [OF Some] have "fill_loop w h T F data q = Some r" by simp
    with None show ?thesis by simp
  qed
qed

lemma fillFlood_number_Finite:
  "fillFlood_number w h data (Finite x) (Finite y) F = fillFlood w h data x y F"
proof -
  have t: "getPixelColor_number w data (Finite x) (Finite y) = getPixelColor w data x y"
    by (simp add: getPixelColor_number_def getPixelColor_def Let_def)
  have "fill_loop_number w h T F data [(Finite x, Finite y)] = fill_loop w h T F data [(x, y)]" for T
    using fill_loop_number_Finite [of w h T F data "[(x, y)]"] by (simp add: finite_coord_def)
  then show ?thesis by (simp add: fillFlood_number_def fillFlood_def t Let_def)
qed

lemma fillFlood_number_returns:
  assumes "length data = w * h * 4"
  shows "\<exists>data'. fillFlood_number w h data (Finite x) (Finite y) F = Some data'"
  using fillFlood_returns [OF assms, of x y F] by (auto simp: fillFlood_number_Finite)

text \<open>
  While a coordinate \<^verbatim>\<open>[NaN, y]\<close> that passes the bounds test is in the queue and the
  target colour is \<^verbatim>\<open>undefined\<close> in all four channels, the loop cannot return: at that
  coordinate the index is \<^verbatim>\<open>NaN\<close>, the colour read there is the target colour, the
  writes are ignored, and its left neighbour, \<^verbatim>\<open>[NaN, y]\<close> again, is pushed. So
  \<^verbatim>\<open>fillFlood\<close> does not return at any such seed.
\<close>

lemma stuck_index:
  assumes "stuck h c"
  shows "number_times (number_plus (number_times (snd c) (Finite (int w))) (fst c)) (Finite 4) = NaN"
    and "\<not> (number_less (fst c) (Finite 0) \<or> number_ge (fst c) (Finite (int w))
            \<or> number_less (snd c) (Finite 0) \<or> number_ge (snd c) (Finite (int h)))"
    and "stuck h (number_minus (fst c) (Finite 1), snd c)"
  using assms by (cases c; cases "snd c"; simp add: stuck_def number_minus_def)+

lemma fill_loop_number_stuck:
  assumes "fill_loop_number w h T F data q = Some r"
  shows "(\<forall>c \<in> set q. \<not> stuck h c) \<or> T \<noteq> (None, None, None, None)"
proof (rule fill_loop_number.raw_induct
    [where P = "\<lambda>w h T F data q r. (\<forall>c \<in> set q. \<not> stuck h c) \<or> T \<noteq> (None, None, None, None)",
      OF _ assms])
  fix loop :: "nat \<Rightarrow> nat \<Rightarrow> color \<Rightarrow> rgba \<Rightarrow> byte list \<Rightarrow> (number \<times> number) list \<Rightarrow> byte list option"
  fix w h T F data q r
  assume IH: "\<And>w h T F data q r. loop w h T F data q = Some r
      \<Longrightarrow> (\<forall>c \<in> set q. \<not> stuck h c) \<or> T \<noteq> (None, None, None, None)"
  assume body: "(case q of
        [] \<Rightarrow> Some data
      | c # rest \<Rightarrow>
          (let cx = fst c; cy = snd c in
           if number_less cx (Finite 0) \<or> number_ge cx (Finite (int w))
              \<or> number_less cy (Finite 0) \<or> number_ge cy (Finite (int h))
           then loop w h T F data rest
           else
             (let idx = number_times
                          (number_plus (number_times cy (Finite (int w))) cx) (Finite 4);
                  currentColor =
                    (data_get_number data idx, data_get_number data (number_plus idx (Finite 1)),
                     data_get_number data (number_plus idx (Finite 2)),
                     data_get_number data (number_plus idx (Finite 3)))
              in if colorsMatch currentColor T
                 then loop w h T F
                        (paintPixel_number data idx F)
                        (rest @ [(number_minus cx (Finite 1), cy), (number_plus cx (Finite 1), cy),
                                 (cx, number_minus cy (Finite 1)), (cx, number_plus cy (Finite 1))])
                 else loop w h T F data rest))) = Some r"
  show "(\<forall>c \<in> set q. \<not> stuck h c) \<or> T \<noteq> (None, None, None, None)"
  proof (rule ccontr)
    assume "\<not> ?thesis"
    then obtain s where mem: "s \<in> set q" and s: "stuck h s"
      and T: "T = (None, None, None, None)" by auto
    then obtain c rest where q: "q = c # rest" by (cases q) auto
    show False
    proof (cases "c = s")
      case True
      note i = stuck_index(1) [OF s, of w] stuck_index(2) [OF s, of w] stuck_index(3) [OF s]
      from body q T True i(1,2)
      have "loop w h T F (paintPixel_number data NaN F)
              (rest @ [(number_minus (fst s) (Finite 1), snd s), (number_plus (fst s) (Finite 1), snd s),
                       (fst s, number_minus (snd s) (Finite 1)),
                       (fst s, number_plus (snd s) (Finite 1))]) = Some r"
        by (simp add: Let_def)
      from IH [OF this] T i(3) show False by simp
    next
      case False
      with mem q have rest: "s \<in> set rest" by auto
      from body q
      consider d where "loop w h T F d rest = Some r"
        | d xs where "loop w h T F d (rest @ xs) = Some r"
        by (auto simp: Let_def split: if_splits)
      then show False
      proof cases
        case 1
        from IH [OF this] rest s T show False by auto
      next
        case 2
        from IH [OF this] rest s T show False by auto
      qed
    qed
  qed
qed

lemma fillFlood_number_NaN_column:
  assumes "\<not> number_less y (Finite 0)" "\<not> number_ge y (Finite (int h))"
  shows "fillFlood_number w h data NaN y fillColor = None"
proof (cases "fillFlood_number w h data NaN y fillColor")
  case None
  then show ?thesis .
next
  case (Some r)
  have s: "stuck h (NaN, y)" using assms by (simp add: stuck_def)
  from stuck_index(1) [OF s, of w]
  have T: "getPixelColor_number w data NaN y = (None, None, None, None)"
    by (simp add: getPixelColor_number_def)
  from Some have "fill_loop_number w h (None, None, None, None) fillColor data [(NaN, y)] = Some r"
    by (cases fillColor) (simp add: fillFlood_number_def T numbers_def)
  from fill_loop_number_stuck [OF this] s show ?thesis by simp
qed

lemma fillFlood_number_NaN_row_example:
  "fillFlood_number 600 400 blank NaN (Finite 7) (0, 0, 0, 255) = None"
  by (rule fillFlood_number_NaN_column) simp_all


section \<open>Bouncing off the walls\<close>

lemma animate_frame:
  assumes "animating s" "canvasRef s = Some canvas" "offscreenCanvasRef s = Some offCanvas"
    and "imgPosRef s = (x, y, rotation)" "velocityRef s = (vx, vy, vr)"
  shows "imgPosRef (animate rendered s)
         = (if x + vx - real (cv_width offCanvas) / 2 < 0 then real (cv_width offCanvas) / 2
            else if x + vx + real (cv_width offCanvas) / 2 > real (cv_width canvas)
            then real (cv_width canvas) - real (cv_width offCanvas) / 2
            else x + vx,
            if y + vy - real (cv_height offCanvas) / 2 < 0 then real (cv_height offCanvas) / 2
            else if y + vy + real (cv_height offCanvas) / 2 > real (cv_height canvas)
            then real (cv_height canvas) - real (cv_height offCanvas) / 2
            else y + vy,
            rotation + vr)"
    and "velocityRef (animate rendered s)
         = (if x + vx - real (cv_width offCanvas) / 2 < 0 then - vx
            else if x + vx + real (cv_width offCanvas) / 2 > real (cv_width canvas) then - vx
            else vx,
            if y + vy - real (cv_height offCanvas) / 2 < 0 then - vy
            else if y + vy + real (cv_height offCanvas) / 2 > real (cv_height canvas) then - vy
            else vy,
            vr)"
  by (simp_all add: animate_def assms Let_def split: prod.splits)

text \<open>
  C4. One frame of the animation adds the velocity to the position and the angular
  velocity to the rotation. On each axis: if the leading edge of the sprite (centre
  minus or plus half its extent) is then beyond the left or top boundary, the centre is
  set so that the edge is on the boundary exactly and the velocity component of that
  axis is negated; likewise at the right or bottom boundary; otherwise the axis keeps
  the moved position and its velocity. The outcome on an axis depends on that axis
  alone; the rotation and the angular velocity are never affected by a bounce. A sprite
  no larger than the canvas that crosses the right or bottom boundary is not across the
  opposite one.
\<close>

theorem animate_bounce:
  assumes "animating s" "canvasRef s = Some canvas" "offscreenCanvasRef s = Some offCanvas"
    and "imgPosRef s = (x, y, rotation)" "velocityRef s = (vx, vy, vr)"
  shows "\<exists>x' y' vx' vy'.
           imgPosRef (animate rendered s) = (x', y', rotation + vr)
           \<and> velocityRef (animate rendered s) = (vx', vy', vr)
           \<and> (x + vx - real (cv_width offCanvas) / 2 < 0
                \<longrightarrow> x' - real (cv_width offCanvas) / 2 = 0 \<and> vx' = - vx)
           \<and> (\<not> x + vx - real (cv_width offCanvas) / 2 < 0
                \<and> x + vx + real (cv_width offCanvas) / 2 > real (cv_width canvas)
                \<longrightarrow> x' + real (cv_width offCanvas) / 2 = real (cv_width canvas) \<and> vx' = - vx)
           \<and> (\<not> x + vx - real (cv_width offCanvas) / 2 < 0
                \<and> \<not> x + vx + real (cv_width offCanvas) / 2 > real (cv_width canvas)
                \<longrightarrow> x' = x + vx \<and> vx' = vx)
           \<and> (y + vy - real (cv_height offCanvas) / 2 < 0
                \<longrightarrow> y' - real (cv_height offCanvas) / 2 = 0 \<and> vy' = - vy)
           \<and> (\<not> y + vy - real (cv_height offCanvas) / 2 < 0
                \<and> y + vy + real (cv_height offCanvas) / 2 > real (cv_height canvas)
                \<longrightarrow> y' + real (cv_height offCanvas) / 2 = real (cv_height canvas) \<and> vy' = - vy)
           \<and> (\<not> y + vy - real (cv_height offCanvas) / 2 < 0
                \<and> \<not> y + vy + real (cv_height offCanvas) / 2 > real (cv_height canvas)
                \<longrightarrow> y' = y + vy \<and> vy' = vy)
           \<and> (cv_width offCanvas \<le> cv_width canvas
                \<and> x + vx + real (cv_width offCanvas) / 2 > real (cv_width canvas)
                \<longrightarrow> \<not> x + vx - real (cv_width offCanvas) / 2 < 0)
           \<and> (cv_height offCanvas \<le> cv_height canvas
                \<and> y + vy + real (cv_height offCanvas) / 2 > real (cv_height canvas)
                \<longrightarrow> \<not> y + vy - real (cv_height offCanvas) / 2 < 0)"
proof -
  have wide: "cv_width offCanvas \<le> cv_width canvas
      \<and> x + vx + real (cv_width offCanvas) / 2 > real (cv_width canvas)
      \<longrightarrow> \<not> x + vx - real (cv_width offCanvas) / 2 < 0"
  proof (intro impI, elim conjE)
    assume "cv_width offCanvas \<le> cv_width canvas"
    then have "real (cv_width offCanvas) \<le> real (cv_width canvas)" by simp
    moreover assume "x + vx + real (cv_width offCanvas) / 2 > real (cv_width canvas)"
    ultimately show "\<not> x + vx - real (cv_width offCanvas) / 2 < 0" by (simp add: field_simps)
  qed
  have high: "cv_height offCanvas \<le> cv_height canvas
      \<and> y + vy + real (cv_height offCanvas) / 2 > real (cv_height canvas)
      \<longrightarrow> \<not> y + vy - real (cv_height offCanvas) / 2 < 0"
  proof (intro impI, elim conjE)
    assume "cv_height offCanvas \<le> cv_height canvas"
    then have "real (cv_height offCanvas) \<le> real (cv_height canvas)" by simp
    moreover assume "y + vy + real (cv_height offCanvas) / 2 > real (cv_height canvas)"
    ultimately show "\<not> y + vy - real (cv_height offCanvas) / 2 < 0" by (simp add: field_simps)
  qed
  note fr = animate_frame [OF assms, of rendered]
  let ?L = "x + vx - real (cv_width offCanvas) / 2 < 0"
  let ?R = "x + vx + real (cv_width offCanvas) / 2 > real (cv_width canvas)"
  let ?T = "y + vy - real (cv_height offCanvas) / 2 < 0"
  let ?B = "y + vy + real (cv_height offCanvas) / 2 > real (cv_height canvas)"
  let ?x' = "if ?L then real (cv_width offCanvas) / 2
             else if ?R then real (cv_width canvas) - real (cv_width offCanvas) / 2 else x + vx"
  let ?y' = "if ?T then real (cv_height offCanvas) / 2
             else if ?B then real (cv_height canvas) - real (cv_height offCanvas) / 2 else y + vy"
  let ?vx' = "if ?L then - vx else if ?R then - vx else vx"
  let ?vy' = "if ?T then - vy else if ?B then - vy else vy"
  have xs: "(?L \<longrightarrow> ?x' - real (cv_width offCanvas) / 2 = 0 \<and> ?vx' = - vx)
      \<and> (\<not> ?L \<and> ?R \<longrightarrow> ?x' + real (cv_width offCanvas) / 2 = real (cv_width canvas) \<and> ?vx' = - vx)
      \<and> (\<not> ?L \<and> \<not> ?R \<longrightarrow> ?x' = x + vx \<and> ?vx' = vx)"
    by simp
  have ys: "(?T \<longrightarrow> ?y' - real (cv_height offCanvas) / 2 = 0 \<and> ?vy' = - vy)
      \<and> (\<not> ?T \<and> ?B \<longrightarrow> ?y' + real (cv_height offCanvas) / 2 = real (cv_height canvas) \<and> ?vy' = - vy)
      \<and> (\<not> ?T \<and> \<not> ?B \<longrightarrow> ?y' = y + vy \<and> ?vy' = vy)"
    by simp
  from fr xs ys wide high show ?thesis
    by (intro exI [of _ ?x'] exI [of _ ?y'] exI [of _ ?vx'] exI [of _ ?vy']) blast
qed

theorem animate_bounce_witness:
  "animating bouncing
   \<and> canvasRef bouncing = Some \<lparr>cv_width = 600, cv_height = 400, pixels = blank\<rparr>
   \<and> offscreenCanvasRef bouncing
       = Some \<lparr>cv_width = 100, cv_height = 50, pixels = replicate 20000 0\<rparr>
   \<and> imgPosRef bouncing = (560, 20, 0) \<and> velocityRef bouncing = (5, - 3, 1 / 10)
   \<and> imgPosRef (animate blank bouncing) = (550, 25, 1 / 10)
   \<and> velocityRef (animate blank bouncing) = (- 5, 3, 1 / 10)"
proof -
  have a: "animating bouncing"
    and c: "canvasRef bouncing = Some \<lparr>cv_width = 600, cv_height = 400, pixels = blank\<rparr>"
    and off: "offscreenCanvasRef bouncing
       = Some \<lparr>cv_width = 100, cv_height = 50, pixels = replicate 20000 0\<rparr>"
    and p: "imgPosRef bouncing = (560, 20, 0)"
    and v: "velocityRef bouncing = (5, - 3, 1 / 10)"
    by (simp_all add: bouncing_def startup_facts)
  from animate_bounce [OF a c off p v, of blank]
  obtain x' y' vx' vy' where
    "imgPosRef (animate blank bouncing) = (x', y', 0 + 1 / 10)"
    "velocityRef (animate blank bouncing) = (vx', vy', 1 / 10)"
    "x' + real 100 / 2 = real 600 \<and> vx' = - 5"
    "y' - real 50 / 2 = 0 \<and> vy' = - (- 3)"
    by auto
  with a c off p v show ?thesis by simp
qed

section \<open>The bounding box of a drawing\<close>

lemma scanPixel_found: "found box \<Longrightarrow> found (scanPixel data w box y x)"
  by (cases box) (auto simp: found_def scanPixel_def Let_def)

lemma scanPixel_hit: "nonWhite data w y x \<Longrightarrow> found (scanPixel data w box y x)"
  by (cases box) (auto simp: found_def scanPixel_def nonWhite_def Let_def)

lemma row_found:
  "found box \<Longrightarrow> found (foldl (\<lambda>box x. scanPixel data w box y x) box xs)"
  by (induction xs arbitrary: box) (simp_all add: scanPixel_found)

lemma row_hit:
  "x \<in> set xs \<Longrightarrow> nonWhite data w y x
   \<Longrightarrow> found (foldl (\<lambda>box x. scanPixel data w box y x) box xs)"
proof (induction xs arbitrary: box)
  case Nil
  then show ?case by simp
next
  case (Cons a xs)
  show ?case
  proof (cases "a = x")
    case True
    with Cons.prems(2) show ?thesis
      by (simp add: row_found [OF scanPixel_hit])
  next
    case False
    with Cons.prems have "x \<in> set xs" by simp
    from Cons.IH [OF this Cons.prems(2)] show ?thesis by simp
  qed
qed

lemma rows_found:
  "found box
   \<Longrightarrow> found (foldl (\<lambda>box y. foldl (\<lambda>box x. scanPixel data w box y x) box xs) box ys)"
  by (induction ys arbitrary: box) (simp_all add: row_found)

lemma rows_hit:
  "y \<in> set ys \<Longrightarrow> x \<in> set xs \<Longrightarrow> nonWhite data w y x
   \<Longrightarrow> found (foldl (\<lambda>box y. foldl (\<lambda>box x. scanPixel data w box y x) box xs) box ys)"
proof (induction ys arbitrary: box)
  case Nil
  then show ?case by simp
next
  case (Cons a ys)
  show ?case
  proof (cases "a = y")
    case True
    with Cons.prems(2,3) show ?thesis
      by (simp add: rows_found [OF row_hit])
  next
    case False
    with Cons.prems have "y \<in> set ys" by simp
    from Cons.IH [OF this Cons.prems(2,3)] show ?thesis by simp
  qed
qed

lemma getDrawingBoundingBox_Some:
  assumes "x < w" "y < h" "nonWhite data w y x"
  shows "\<exists>box. getDrawingBoundingBox data w h = Some box"
proof -
  have "found (foldl (\<lambda>box y. foldl (\<lambda>box x. scanPixel data w box y x) box [0..<w])
                 (w, h, 0, 0) [0..<h])"
    using assms by (intro rows_hit [of y _ x]) simp_all
  then show ?thesis
    by (auto simp: getDrawingBoundingBox_def found_def split: prod.splits)
qed

lemma strokeExample_box:
  "\<exists>box. getDrawingBoundingBox strokeExample 600 400 = Some box"
proof (rule getDrawingBoundingBox_Some [of 100 _ 100])
  show "nonWhite strokeExample 600 100 100"
    by (simp add: nonWhite_def strokeExample_def data_get_def)
qed simp_all

section \<open>Rounding to binary64\<close>

text \<open>
  Rounding to the nearest integer is monotone and leaves integers alone; hence rounding
  to binary64 is monotone, is within half a unit in the last place of its argument, and
  is computed at a given number from the power of two below it.
\<close>

lemma rne_of_int [simp]: "rne (of_int k) = k"
  by (simp add: rne_def)

lemma rne_near: "\<bar>of_int (rne x) - x\<bar> \<le> 1 / 2"
  unfolding rne_def Let_def by (auto simp: abs_if) linarith+

lemma rne_eqI: "\<bar>x - of_int k\<bar> < 1 / 2 \<Longrightarrow> rne x = k"
proof -
  assume a: "\<bar>x - of_int k\<bar> < 1 / 2"
  show ?thesis
  proof (cases "of_int k \<le> x")
    case True
    with a have "\<lfloor>x\<rfloor> = k" by (intro floor_unique) (auto simp: abs_if)
    with a True show ?thesis by (simp add: rne_def Let_def)
  next
    case False
    with a have "\<lfloor>x\<rfloor> = k - 1" by (intro floor_unique) (auto simp: abs_if)
    with a False show ?thesis by (auto simp: rne_def Let_def abs_if)
  qed
qed

lemma rne_tie_even: "x = of_int k - 1 / 2 \<Longrightarrow> even k \<Longrightarrow> rne x = k"
proof -
  assume x: "x = of_int k - 1 / 2" and k: "even k"
  have "\<lfloor>x\<rfloor> = k - 1" unfolding x by (intro floor_unique) auto
  with x k show ?thesis by (simp add: rne_def Let_def)
qed

lemma rne_tie_down: "x = of_int k + 1 / 2 \<Longrightarrow> even k \<Longrightarrow> rne x = k"
proof -
  assume x: "x = of_int k + 1 / 2" and k: "even k"
  have "\<lfloor>x\<rfloor> = k" unfolding x by (intro floor_unique) auto
  with x k show ?thesis by (simp add: rne_def Let_def)
qed

lemma rne_mono: "x \<le> y \<Longrightarrow> rne x \<le> rne y"
proof -
  assume xy: "x \<le> y"
  then have f: "\<lfloor>x\<rfloor> \<le> \<lfloor>y\<rfloor>" by (rule floor_mono)
  show ?thesis
  proof (cases "\<lfloor>x\<rfloor> = \<lfloor>y\<rfloor>")
    case True
    with xy show ?thesis by (auto simp: rne_def Let_def)
  next
    case False
    with f have "\<lfloor>x\<rfloor> + 1 \<le> \<lfloor>y\<rfloor>" by simp
    moreover have "rne x \<le> \<lfloor>x\<rfloor> + 1" by (simp add: rne_def Let_def)
    moreover have "\<lfloor>y\<rfloor> \<le> rne y" by (simp add: rne_def Let_def)
    ultimately show ?thesis by linarith
  qed
qed

lemma ulp_pos: "0 < ulp x"
  by (simp add: ulp_def)

lemma exponent_eqI:
  assumes "0 < x" "2 powr of_int e \<le> x" "x < 2 powr (of_int e + 1)" "- 1022 \<le> e"
  shows "exponent x = e"
proof -
  have "\<lfloor>log 2 x\<rfloor> = e"
    using assms(1-3) by (simp add: floor_log_eq_powr_iff)
  with assms(4) show ?thesis by (simp add: exponent_def)
qed

lemma exponent_upper:
  assumes "0 < x"
  shows "x < 2 powr (of_int (exponent x) + 1)"
proof -
  have "x < 2 powr (of_int \<lfloor>log 2 x\<rfloor> + 1)"
    using assms floor_log_eq_powr_iff [of x 2 "\<lfloor>log 2 x\<rfloor>"] by simp
  also have "\<dots> \<le> 2 powr (of_int (exponent x) + 1)"
    by (simp add: exponent_def)
  finally show ?thesis .
qed

lemma exponent_lower:
  assumes "0 < x" "- 1022 < exponent x"
  shows "2 powr of_int (exponent x) \<le> x"
proof -
  from assms(2) have "exponent x = \<lfloor>log 2 x\<rfloor>" by (simp add: exponent_def max_def split: if_splits)
  then show ?thesis
    using assms(1) floor_log_eq_powr_iff [of x 2 "\<lfloor>log 2 x\<rfloor>"] by simp
qed

lemma exponent_mono:
  assumes "0 < x" "x \<le> y"
  shows "exponent x \<le> exponent y"
proof -
  have "log 2 x \<le> log 2 y" using assms by simp
  then have "\<lfloor>log 2 x\<rfloor> \<le> \<lfloor>log 2 y\<rfloor>" by (rule floor_mono)
  then show ?thesis by (simp add: exponent_def)
qed

lemma round_pos_nonneg: "0 \<le> x \<Longrightarrow> 0 \<le> round_pos x"
proof -
  assume "0 \<le> x"
  then have "0 \<le> x / ulp x" using ulp_pos [of x] by simp
  then have "rne 0 \<le> rne (x / ulp x)" by (rule rne_mono)
  then have "0 \<le> rne (x / ulp x)" using rne_of_int [of 0] by simp
  then show ?thesis using ulp_pos [of x] by (simp add: round_pos_def)
qed

lemma round_pos_upper:
  assumes "0 < x"
  shows "round_pos x \<le> 2 powr (of_int (exponent x) + 1)"
proof -
  have "x / ulp x \<le> 2 powr (of_int (exponent x) + 1) / ulp x"
    using exponent_upper [OF assms] ulp_pos [of x] by (simp add: divide_right_mono)
  also have "\<dots> = 2 powr 53"
    by (simp add: ulp_def powr_diff [symmetric])
  also have "\<dots> = of_int (2 ^ 53)" by simp
  finally have "rne (x / ulp x) \<le> rne (of_int (2 ^ 53))" by (rule rne_mono)
  then have "rne (x / ulp x) \<le> 2 ^ 53" by (simp only: rne_of_int)
  then have "of_int (rne (x / ulp x)) \<le> (2 ^ 53 :: real)"
    by (metis of_int_le_iff of_int_numeral of_int_power)
  then have "round_pos x \<le> 2 ^ 53 * ulp x"
    unfolding round_pos_def using ulp_pos [of x] by (simp add: mult_right_mono)
  also have "\<dots> = 2 powr 53 * 2 powr (of_int (exponent x) - 52)" by (simp add: ulp_def)
  also have "\<dots> = 2 powr (53 + (of_int (exponent x) - 52))" by (rule powr_add [symmetric])
  also have "53 + (real_of_int (exponent x) - 52) = of_int (exponent x) + 1" by simp
  finally show ?thesis .
qed

lemma round_pos_lower:
  assumes "0 < x" "- 1022 < exponent x"
  shows "2 powr of_int (exponent x) \<le> round_pos x"
proof -
  have "2 powr of_int (exponent x) / ulp x \<le> x / ulp x"
    using exponent_lower [OF assms] ulp_pos [of x] by (simp add: divide_right_mono)
  moreover have "2 powr of_int (exponent x) / ulp x = 2 powr 52"
    by (simp add: ulp_def powr_diff [symmetric])
  moreover have "(2::real) powr 52 = of_int (2 ^ 52)" by simp
  ultimately have "rne (of_int (2 ^ 52)) \<le> rne (x / ulp x)"
    by (intro rne_mono) simp
  then have "2 ^ 52 \<le> rne (x / ulp x)" by (simp only: rne_of_int)
  then have "(2 ^ 52 :: real) \<le> of_int (rne (x / ulp x))"
    by (metis of_int_le_iff of_int_numeral of_int_power)
  then have "2 ^ 52 * ulp x \<le> round_pos x"
    unfolding round_pos_def using ulp_pos [of x] by (simp add: mult_right_mono)
  moreover have "2 ^ 52 * ulp x = 2 powr 52 * 2 powr (of_int (exponent x) - 52)"
    by (simp add: ulp_def)
  moreover have "2 powr 52 * 2 powr (of_int (exponent x) - 52)
      = (2::real) powr (52 + (of_int (exponent x) - 52))" by (rule powr_add [symmetric])
  moreover have "52 + (real_of_int (exponent x) - 52) = of_int (exponent x)" by simp
  ultimately show ?thesis by simp
qed

lemma round_pos_mono:
  assumes "0 < x" "x \<le> y"
  shows "round_pos x \<le> round_pos y"
proof (cases "exponent x = exponent y")
  case True
  then have u: "ulp x = ulp y" by (simp add: ulp_def)
  have "x / ulp y \<le> y / ulp y" using assms(2) ulp_pos [of y] by (simp add: divide_right_mono)
  then have "rne (x / ulp y) \<le> rne (y / ulp y)" by (rule rne_mono)
  then show ?thesis
    unfolding round_pos_def u using ulp_pos [of y] by (simp add: mult_right_mono)
next
  case False
  with exponent_mono [OF assms] have lt: "exponent x < exponent y" by simp
  have y: "0 < y" using assms by simp
  have "- 1022 \<le> exponent x" by (simp add: exponent_def)
  with lt have big: "- 1022 < exponent y" by simp
  have "round_pos x \<le> 2 powr (of_int (exponent x) + 1)" by (rule round_pos_upper [OF assms(1)])
  also have "\<dots> \<le> 2 powr of_int (exponent y)" using lt by simp
  also have "\<dots> \<le> round_pos y" by (rule round_pos_lower [OF y big])
  finally show ?thesis .
qed

lemma double_mono:
  assumes "x \<le> y"
  shows "double x \<le> double y"
proof -
  consider "0 < x" | "x \<le> 0" "0 \<le> y" | "y < 0" by linarith
  then show ?thesis
  proof cases
    case 1
    with assms round_pos_mono [OF 1 assms] show ?thesis by (simp add: double_def)
  next
    case 2
    have "double x \<le> 0" using 2(1) round_pos_nonneg [of "- x"] by (simp add: double_def)
    moreover have "0 \<le> double y" using 2(2) round_pos_nonneg [of y] by (simp add: double_def)
    ultimately show ?thesis by simp
  next
    case 3
    with assms have "0 < - y" "- y \<le> - x" by simp_all
    from round_pos_mono [OF this] 3 assms show ?thesis by (simp add: double_def)
  qed
qed

lemma double_eqI:
  assumes "0 < x" "2 powr of_int e \<le> x" "x < 2 powr (of_int e + 1)" "- 1022 \<le> e"
    and "rne (x / 2 powr (of_int e - 52)) = k"
  shows "double x = of_int k * 2 powr (of_int e - 52)"
  using assms(1,5) exponent_eqI [OF assms(1-4)]
  by (simp add: double_def round_pos_def ulp_def)

lemma double_minus: "double (- x) = - double x"
  by (simp add: double_def)

lemma double_near:
  "\<bar>double x - x\<bar> \<le> ulp \<bar>x\<bar> / 2"
proof -
  have pos: "\<bar>round_pos y - y\<bar> \<le> ulp y / 2" for y
  proof -
    have "\<bar>of_int (rne (y / ulp y)) - y / ulp y\<bar> \<le> 1 / 2" by (rule rne_near)
    then have "\<bar>of_int (rne (y / ulp y)) - y / ulp y\<bar> * ulp y \<le> 1 / 2 * ulp y"
      using ulp_pos [of y] by (simp add: mult_right_mono)
    moreover have "\<bar>of_int (rne (y / ulp y)) - y / ulp y\<bar> * ulp y
        = \<bar>(of_int (rne (y / ulp y)) - y / ulp y) * ulp y\<bar>"
      using ulp_pos [of y] by (simp add: abs_mult)
    moreover have "(of_int (rne (y / ulp y)) - y / ulp y) * ulp y = round_pos y - y"
      using ulp_pos [of y] by (simp add: round_pos_def left_diff_distrib)
    ultimately show ?thesis by simp
  qed
  consider "x = 0" | "0 < x" | "x < 0" by linarith
  then show ?thesis
  proof cases
    case 1
    then show ?thesis using ulp_pos [of 0] by (simp add: double_def less_imp_le)
  next
    case 2
    then show ?thesis using pos [of x] by (simp add: double_def)
  next
    case 3
    have "\<bar>- round_pos (- x) - x\<bar> = \<bar>round_pos (- x) - (- x)\<bar>" by (simp add: abs_if)
    with 3 show ?thesis using pos [of "- x"] by (simp add: double_def)
  qed
qed

lemma double_0 [simp]: "double 0 = 0"
  by (simp add: double_def)

lemma double_exact:
  assumes "0 < x" "2 powr of_int e \<le> x" "x < 2 powr (of_int e + 1)" "- 1022 \<le> e"
    and "x / 2 powr (of_int e - 52) = of_int k"
  shows "double x = x"
proof -
  have "rne (x / 2 powr (of_int e - 52)) = k" unfolding assms(5) by simp
  from double_eqI [OF assms(1-4) this] have "double x = of_int k * 2 powr (of_int e - 52)" .
  also have "\<dots> = x / 2 powr (of_int e - 52) * 2 powr (of_int e - 52)" by (simp only: assms(5))
  also have "\<dots> = x" by simp
  finally show ?thesis .
qed

lemma exponent_le:
  assumes "0 < x" "x < 2 powr (of_int e + 1)" "- 1022 \<le> e"
  shows "exponent x \<le> e"
proof -
  from assms(1,2) have "log 2 x < of_int e + 1" by (simp add: less_powr_iff)
  then have "log 2 x < of_int (e + 1)" by simp
  then have "\<lfloor>log 2 x\<rfloor> < e + 1" by (simp only: floor_less_iff)
  with assms(3) show ?thesis by (simp add: exponent_def)
qed

lemma double_error:
  assumes "\<bar>x\<bar> < 2 powr (of_int e + 1)" "- 1022 \<le> e"
  shows "\<bar>double x - x\<bar> \<le> 2 powr (of_int e - 53)"
proof (cases "x = 0")
  case True
  then show ?thesis by simp
next
  case False
  then have pos: "0 < \<bar>x\<bar>" by simp
  from exponent_le [OF pos assms] have "ulp \<bar>x\<bar> \<le> 2 powr (of_int e - 52)"
    by (simp add: ulp_def)
  then have "ulp \<bar>x\<bar> / 2 \<le> 2 powr (of_int e - 52) / 2" by simp
  also have "\<dots> = 2 powr (of_int e - 52) / 2 powr 1" by simp
  also have "\<dots> = 2 powr (of_int e - 52 - 1)" by (rule powr_diff [symmetric])
  also have "of_int e - 52 - 1 = (of_int e - 53 :: real)" by simp
  finally show ?thesis using double_near [of x] by simp
qed

lemma double_below_1:
  assumes "double r = r" "0 \<le> r" "r < 1"
  shows "r \<le> 1 - 1 / 2 ^ 53"
proof (cases "r < 1 / 2")
  case True
  then show ?thesis by simp
next
  case False
  then have r: "0 < r" "2 powr of_int (- 1) \<le> r" "r < 2 powr (of_int (- 1) + 1)"
    using assms(3) by (simp_all add: powr_neg_numeral powr_minus_divide)
  define k where "k = rne (r / 2 powr (of_int (- 1) - 52))"
  from double_eqI [OF r _ k_def [symmetric]] assms(1)
  have eq: "r = of_int k * 2 powr (of_int (- 1) - 52)" by simp
  then have eq': "r = of_int k / 9007199254740992" by (simp add: powr_neg_numeral)
  with assms(3) have "real_of_int k < of_int 9007199254740992" by simp
  then have "k < 9007199254740992" by (simp only: of_int_less_iff)
  then have "k \<le> 9007199254740991" by simp
  then have "real_of_int k \<le> of_int 9007199254740991" by (simp only: of_int_le_iff)
  then have "real_of_int k / 9007199254740992 \<le> 9007199254740991 / 9007199254740992" by simp
  then show ?thesis unfolding eq' by simp
qed

text \<open>
  The values of the literals \<^verbatim>\<open>0.2\<close> and \<^verbatim>\<open>0.05\<close>, and the roundings that the
  examples and the bounds below need. The largest number below 1 is \<open>1 - 2\<^sup>-\<^sup>5\<^sup>3\<close>.
\<close>

lemma double_fifth: "double (1 / 5) = 7205759403792794 / 2 ^ 55"
proof -
  have "rne ((1 / 5) / 2 powr (of_int (- 3) - 52)) = 7205759403792794"
    by (rule rne_eqI) (simp add: powr_neg_numeral)
  from double_eqI [OF _ _ _ _ this] show ?thesis by (simp add: powr_neg_numeral)
qed

lemma double_twentieth: "double (1 / 20) = 7205759403792794 / 2 ^ 57"
proof -
  have "rne ((1 / 20) / 2 powr (of_int (- 5) - 52)) = 7205759403792794"
    by (rule rne_eqI) (simp add: powr_neg_numeral)
  from double_eqI [OF _ _ _ _ this] show ?thesis by (simp add: powr_neg_numeral)
qed

lemma double_half: "double (1 / 2) = 1 / 2"
  by (rule double_exact [where e = "- 1" and k = "2 ^ 52"]) (simp_all add: powr_neg_numeral)

lemma double_quarter: "double (1 / 4) = 1 / 4"
  by (rule double_exact [where e = "- 2" and k = "2 ^ 52"]) (simp_all add: powr_neg_numeral)

lemma double_three_quarters: "double (3 / 4) = 3 / 4"
  by (rule double_exact [where e = "- 1" and k = "3 * 2 ^ 51"]) (simp_all add: powr_neg_numeral)

lemma double_3: "double 3 = 3"
  by (rule double_exact [where e = 1 and k = "3 * 2 ^ 51"]) (simp_all add: powr_neg_numeral)

lemma double_6: "double 6 = 6"
  by (rule double_exact [where e = 2 and k = "3 * 2 ^ 51"]) (simp_all add: powr_neg_numeral)

lemma double_below_one: "double (1 - 1 / 2 ^ 53) = 1 - 1 / 2 ^ 53"
  by (rule double_exact [where e = "- 1" and k = "2 ^ 53 - 1"]) (simp_all add: powr_neg_numeral)

lemma double_below_12: "double ((1 - 1 / 2 ^ 53) * 12) = 12 - 1 / 2 ^ 49"
proof -
  have "rne ((1 - 1 / 2 ^ 53) * 12 / 2 powr (of_int 3 - 52)) = 12 * 2 ^ 49 - 1"
    by (rule rne_eqI) (simp add: powr_neg_numeral)
  from double_eqI [OF _ _ _ _ this] show ?thesis by (simp add: powr_neg_numeral)
qed

lemma double_below_6: "double (12 - 1 / 2 ^ 49 - 6) = 6 - 1 / 2 ^ 49"
proof -
  have "double (12 - 1 / 2 ^ 49 - 6) = 12 - 1 / 2 ^ 49 - 6"
    by (rule double_exact [where e = 2 and k = "6 * 2 ^ 50 - 2"]) (simp_all add: powr_neg_numeral)
  then show ?thesis by simp
qed

lemma double_below_fifth:
  "double ((1 - 1 / 2 ^ 53) * (7205759403792794 / 2 ^ 55)) = 7205759403792793 / 2 ^ 55"
proof -
  have "rne ((1 - 1 / 2 ^ 53) * (7205759403792794 / 2 ^ 55) / 2 powr (of_int (- 3) - 52))
      = 7205759403792793"
    by (rule rne_eqI) (simp add: powr_neg_numeral)
  from double_eqI [OF _ _ _ _ this] show ?thesis by (simp add: powr_neg_numeral)
qed

lemma double_tie_quarter:
  "double (7205759403792793 / 2 ^ 55 + 7205759403792794 / 2 ^ 57) = 1 / 4"
proof -
  have "rne ((7205759403792793 / 2 ^ 55 + 7205759403792794 / 2 ^ 57) / 2 powr (of_int (- 3) - 52))
      = 2 ^ 53"
    by (rule rne_tie_even) (simp_all add: powr_neg_numeral)
  from double_eqI [OF _ _ _ _ this] show ?thesis by (simp add: powr_neg_numeral)
qed

lemma double_twentieth_exact: "double (7205759403792794 / 2 ^ 57) = 7205759403792794 / 2 ^ 57"
  by (rule double_exact [where e = "- 5" and k = 7205759403792794]) (simp_all add: powr_neg_numeral)

lemma double_tenth_exact: "double (1 / 2 * (7205759403792794 / 2 ^ 55)) = 7205759403792794 / 2 ^ 56"
proof -
  have "double (7205759403792794 / 2 ^ 56) = 7205759403792794 / 2 ^ 56"
    by (rule double_exact [where e = "- 4" and k = 7205759403792794]) (simp_all add: powr_neg_numeral)
  then show ?thesis by simp
qed

lemma double_tie_three_twentieths:
  "double (7205759403792794 / 2 ^ 56 + 7205759403792794 / 2 ^ 57) = 5404319552844596 / 2 ^ 55"
proof -
  have "rne ((7205759403792794 / 2 ^ 56 + 7205759403792794 / 2 ^ 57) / 2 powr (of_int (- 3) - 52))
      = 5404319552844596"
    by (rule rne_tie_even) (simp_all add: powr_neg_numeral)
  from double_eqI [OF _ _ _ _ this] show ?thesis by (simp add: powr_neg_numeral)
qed

lemma double_three_twentieths_exact:
  "double (5404319552844596 / 2 ^ 55) = 5404319552844596 / 2 ^ 55"
  by (rule double_exact [where e = "- 3" and k = 5404319552844596]) (simp_all add: powr_neg_numeral)

section \<open>Speaking and changing speed\<close>

lemma double_fifth': "double 0.2 = 7205759403792794 / 2 ^ 55"
  using double_fifth by simp

lemma double_twentieth': "double 0.05 = 7205759403792794 / 2 ^ 57"
  using double_twentieth by simp

lemma startAnimation_velocity:
  assumes "canvasRef t = Some c"
    and "getDrawingBoundingBox (pixels c) (cv_width c) (cv_height c) = Some box"
  shows "velocityRef (startAnimation False (r1, r2, r3, r4) e t)
         = (minus_double (times_double r1 12) 6, minus_double (times_double r2 12) 6,
            times_double (plus_double (times_double r3 (double 0.2)) (double 0.05))
              (if r4 > 0.5 then 1 else - 1))"
  using assms by (cases box) (simp add: startAnimation_def speakRandom_def Let_def)

lemma randomDraw_range: "randomDraw r \<Longrightarrow> 0 \<le> r \<and> r \<le> 1 - 1 / 2 ^ 53"
  using double_below_1 [of r] by (simp add: randomDraw_def)

lemma double_minus_6: "double (- 6) = - 6"
  using double_6 by (simp add: double_minus)

text \<open>The linear velocity \<^verbatim>\<open>Math.random() * 12 - 6\<close>.\<close>

lemma linear_velocity:
  assumes "randomDraw r"
  shows "- 6 \<le> minus_double (times_double r 12) 6"
    and "minus_double (times_double r 12) 6 < 6"
    and "\<bar>minus_double (times_double r 12) 6 - (12 * r - 6)\<bar> \<le> 1 / 2 ^ 49"
proof -
  let ?a = "double (r * 12)"
  from randomDraw_range [OF assms] have r: "0 \<le> r" "r \<le> 1 - 1 / 2 ^ 53" by simp_all
  have "double 0 \<le> ?a" by (rule double_mono) (use r in simp)
  then have a0: "0 \<le> ?a" by simp
  have "?a \<le> double ((1 - 1 / 2 ^ 53) * 12)" by (rule double_mono) (use r in simp)
  then have a1: "?a \<le> 12 - 1 / 2 ^ 49" by (simp only: double_below_12)
  have "double (- 6) \<le> double (?a - 6)" by (rule double_mono) (use a0 in simp)
  then show "- 6 \<le> minus_double (times_double r 12) 6"
    by (simp only: double_minus_6 minus_double_def times_double_def)
  have "double (?a - 6) \<le> double (12 - 1 / 2 ^ 49 - 6)" by (rule double_mono) (use a1 in simp)
  then have "double (?a - 6) \<le> 6 - 1 / 2 ^ 49" by (simp only: double_below_6)
  then show "minus_double (times_double r 12) 6 < 6"
    by (simp add: minus_double_def times_double_def)
  have "\<bar>r * 12\<bar> < 2 powr (of_int 3 + 1)" using r by simp
  from double_error [OF this] have e1: "\<bar>?a - r * 12\<bar> \<le> 1 / 2 ^ 50"
    by (simp add: powr_neg_numeral)
  have "\<bar>?a - 6\<bar> < 2 powr (of_int 2 + 1)" using a0 a1 by (simp add: abs_if)
  from double_error [OF this] have e2: "\<bar>double (?a - 6) - (?a - 6)\<bar> \<le> 1 / 2 ^ 51"
    by (simp add: powr_neg_numeral)
  have "\<bar>double (?a - 6) - (12 * r - 6)\<bar> \<le> 1 / 2 ^ 50 + 1 / 2 ^ 51"
    using e1 e2 by linarith
  then show "\<bar>minus_double (times_double r 12) 6 - (12 * r - 6)\<bar> \<le> 1 / 2 ^ 49"
    by (simp add: minus_double_def times_double_def)
qed

text \<open>The magnitude \<^verbatim>\<open>Math.random() * 0.2 + 0.05\<close> of the angular velocity.\<close>

lemma angular_magnitude:
  assumes "randomDraw r"
  shows "7205759403792794 / 2 ^ 57 \<le> plus_double (times_double r (double 0.2)) (double 0.05)"
    and "plus_double (times_double r (double 0.2)) (double 0.05) \<le> 1 / 4"
proof -
  let ?A = "7205759403792794 / 2 ^ 55 :: real" and ?B = "7205759403792794 / 2 ^ 57 :: real"
  let ?m = "double (r * ?A)"
  from randomDraw_range [OF assms] have r: "0 \<le> r" "r \<le> 1 - 1 / 2 ^ 53" by simp_all
  have "double 0 \<le> ?m" by (rule double_mono) (use r in simp)
  then have m0: "0 \<le> ?m" by simp
  have "r * ?A \<le> (1 - 1 / 2 ^ 53) * ?A" using r(2) by (intro mult_right_mono) simp_all
  then have "?m \<le> double ((1 - 1 / 2 ^ 53) * ?A)" by (rule double_mono)
  then have m1: "?m \<le> 7205759403792793 / 2 ^ 55" by (simp only: double_below_fifth)
  have "double ?B \<le> double (?m + ?B)" by (rule double_mono) (use m0 in simp)
  then have lo: "?B \<le> double (?m + ?B)" by (simp only: double_twentieth_exact)
  have "double (?m + ?B) \<le> double (7205759403792793 / 2 ^ 55 + ?B)"
    by (rule double_mono) (use m1 in simp)
  then have hi: "double (?m + ?B) \<le> 1 / 4" by (simp only: double_tie_quarter)
  from lo show "?B \<le> plus_double (times_double r (double 0.2)) (double 0.05)"
    by (simp only: plus_double_def times_double_def double_fifth' double_twentieth')
  from hi show "plus_double (times_double r (double 0.2)) (double 0.05) \<le> 1 / 4"
    by (simp only: plus_double_def times_double_def double_fifth' double_twentieth')
qed

lemma angular_velocity:
  assumes "randomDraw r"
  shows "1 / 20 \<le> \<bar>times_double (plus_double (times_double r (double 0.2)) (double 0.05))
                      (if (r4::real) > 0.5 then 1 else - 1)\<bar>"
    and "\<bar>times_double (plus_double (times_double r (double 0.2)) (double 0.05))
            (if r4 > 0.5 then 1 else - 1)\<bar> \<le> 1 / 4"
    and "0 < times_double (plus_double (times_double r (double 0.2)) (double 0.05))
            (if r4 > 0.5 then 1 else - 1) \<longleftrightarrow> r4 > 0.5"
proof -
  let ?B = "7205759403792794 / 2 ^ 57 :: real"
  let ?m = "plus_double (times_double r (double 0.2)) (double 0.05)"
  note m = angular_magnitude [OF assms]
  have "double ?B \<le> double ?m" using m(1) by (rule double_mono)
  then have lo: "?B \<le> double ?m" by (simp only: double_twentieth_exact)
  have "double ?m \<le> double (1 / 4)" using m(2) by (rule double_mono)
  then have hi: "double ?m \<le> 1 / 4" by (simp only: double_quarter)
  have B: "1 / 20 \<le> ?B" by simp
  have v: "times_double ?m (if r4 > 0.5 then 1 else - 1)
      = (if r4 > 0.5 then double ?m else - double ?m)"
    by (simp add: times_double_def double_minus)
  from lo hi B show "1 / 20 \<le> \<bar>times_double ?m (if (r4::real) > 0.5 then 1 else - 1)\<bar>"
    unfolding v by (simp add: abs_if)
  from lo hi B show "\<bar>times_double ?m (if r4 > 0.5 then 1 else - 1)\<bar> \<le> 1 / 4"
    unfolding v by (simp add: abs_if)
  from lo hi B show "0 < times_double ?m (if r4 > 0.5 then 1 else - 1) \<longleftrightarrow> r4 > 0.5"
    unfolding v by (simp add: abs_if)
qed

lemma speakRandom_velocity:
  "velocityRef (speakRandom True (r0, r1, r2, r3, r4) s)
   = (minus_double (times_double r1 12) 6, minus_double (times_double r2 12) 6,
      times_double (plus_double (times_double r3 (double 0.2)) (double 0.05))
        (if r4 > 0.5 then 1 else - 1))"
  by (simp add: speakRandom_def)

lemma roll_example:
  "minus_double (times_double (1 / 2) 12) 6 = 0"
  "minus_double (times_double (1 / 4) 12) 6 = - 3"
  "times_double (plus_double (times_double (1 / 2) (double 0.2)) (double 0.05))
     (if (3 / 4 :: real) > 0.5 then 1 else - 1) = 5404319552844596 / 2 ^ 55"
  "nat \<lfloor>times_double (3 / 8) 8\<rfloor> = 3"
proof -
  show "minus_double (times_double (1 / 2) 12) 6 = 0"
    by (simp add: minus_double_def times_double_def double_6)
  have "double (- 3) = - 3" using double_3 by (simp only: double_minus)
  then show "minus_double (times_double (1 / 4) 12) 6 = - 3"
    by (simp add: minus_double_def times_double_def double_3)
  have "times_double (1 / 2) (double 0.2) = 7205759403792794 / 2 ^ 56"
    unfolding times_double_def double_fifth' by (rule double_tenth_exact)
  then have m: "plus_double (times_double (1 / 2) (double 0.2)) (double 0.05)
      = 5404319552844596 / 2 ^ 55"
    unfolding plus_double_def double_twentieth' by (simp only: double_tie_three_twentieths)
  have sgn: "(if (3 / 4 :: real) > 0.5 then 1 else - 1) = (1 :: real)" by simp
  have "times_double (plus_double (times_double (1 / 2) (double 0.2)) (double 0.05)) 1
      = double (plus_double (times_double (1 / 2) (double 0.2)) (double 0.05) * 1)"
    by (rule times_double_def)
  also have "\<dots> = double (5404319552844596 / 2 ^ 55)" by (simp only: m mult_1_right)
  also have "\<dots> = 5404319552844596 / 2 ^ 55" by (rule double_three_twentieths_exact)
  finally show "times_double (plus_double (times_double (1 / 2) (double 0.2)) (double 0.05))
     (if (3 / 4 :: real) > 0.5 then 1 else - 1) = 5404319552844596 / 2 ^ 55"
    unfolding sgn .
  show "nat \<lfloor>times_double (3 / 8) 8\<rfloor> = 3"
    by (simp add: times_double_def double_3)
qed

lemma randomDraw_examples:
  "randomDraw (1 / 2)" "randomDraw (1 / 4)" "randomDraw (1 - 1 / 2 ^ 53)"
  using double_half double_quarter double_below_one by (simp_all add: randomDraw_def)

text \<open>
  C9, as amended. A call of \<^verbatim>\<open>speakRandom\<close> with the speech collaborator available
  hands one phrase to it and sets the velocity from the next four random draws, each a
  binary64 number in \<open>[0, 1)\<close>. The position and the rotation of the sprite are
  unchanged. \<open>vx\<close> and \<open>vy\<close> are in \<open>[-6, 6)\<close>, and each is the image \<open>12 r - 6\<close> of
  its draw \<open>r\<close> to within \<open>2\<^sup>-\<^sup>4\<^sup>9\<close>, so it is spread over \<open>[-6, 6)\<close> as the draw is
  over \<open>[0, 1)\<close>. \<open>vr\<close> has a magnitude in \<open>[0.05, 0.25]\<close>, both ends included, and is
  positive exactly when the last draw is above \<open>0.5\<close>. The velocity is the one that
  \<^verbatim>\<open>startAnimation\<close> sets from the same draws, so over any collection of draws the two
  give the same collection of velocities: the same distribution. With the speech
  collaborator unavailable the call changes nothing.
\<close>

theorem speakRandom_rerolls:
  assumes "randomDraw r1" "randomDraw r2" "randomDraw r3"
  shows "\<exists>vx vy vr.
           speakRandom True (r0, r1, r2, r3, r4) s
             = s\<lparr>spoken := spoken s @ [nat \<lfloor>times_double r0 8\<rfloor>], velocityRef := (vx, vy, vr)\<rparr>
           \<and> imgPosRef (speakRandom True (r0, r1, r2, r3, r4) s) = imgPosRef s
           \<and> - 6 \<le> vx \<and> vx < 6 \<and> - 6 \<le> vy \<and> vy < 6
           \<and> \<bar>vx - (12 * r1 - 6)\<bar> \<le> 1 / 2 ^ 49 \<and> \<bar>vy - (12 * r2 - 6)\<bar> \<le> 1 / 2 ^ 49
           \<and> 0.05 \<le> \<bar>vr\<bar> \<and> \<bar>vr\<bar> \<le> 0.25 \<and> (0 < vr \<longleftrightarrow> r4 > 0.5)
           \<and> (\<forall>t c box e. canvasRef t = Some c
                 \<and> getDrawingBoundingBox (pixels c) (cv_width c) (cv_height c) = Some box
                 \<longrightarrow> velocityRef (startAnimation False (r1, r2, r3, r4) e t) = (vx, vy, vr)
                     \<and> (\<forall>D. image_mset (\<lambda>d. velocityRef (startAnimation False d e t)) D
                              = image_mset (\<lambda>(d1, d2, d3, d4).
                                    velocityRef (speakRandom True (r0, d1, d2, d3, d4) s)) D))
           \<and> speakRandom False (r0, r1, r2, r3, r4) s = s"
proof -
  let ?vx = "minus_double (times_double r1 12) 6" and ?vy = "minus_double (times_double r2 12) 6"
  let ?vr = "times_double (plus_double (times_double r3 (double 0.2)) (double 0.05))
               (if r4 > 0.5 then 1 else - 1)"
  have call: "speakRandom True (r0, r1, r2, r3, r4) s
             = s\<lparr>spoken := spoken s @ [nat \<lfloor>times_double r0 8\<rfloor>], velocityRef := (?vx, ?vy, ?vr)\<rparr>"
    by (simp add: speakRandom_def)
  have pos: "imgPosRef (speakRandom True (r0, r1, r2, r3, r4) s) = imgPosRef s"
    by (simp add: speakRandom_def)
  note x = linear_velocity [OF assms(1)] and y = linear_velocity [OF assms(2)]
  note a = angular_velocity [OF assms(3), of r4]
  have rng: "- 6 \<le> ?vx \<and> ?vx < 6 \<and> - 6 \<le> ?vy \<and> ?vy < 6
      \<and> \<bar>?vx - (12 * r1 - 6)\<bar> \<le> 1 / 2 ^ 49 \<and> \<bar>?vy - (12 * r2 - 6)\<bar> \<le> 1 / 2 ^ 49"
    using x y by blast
  have rot: "0.05 \<le> \<bar>?vr\<bar> \<and> \<bar>?vr\<bar> \<le> 0.25 \<and> (0 < ?vr \<longleftrightarrow> r4 > 0.5)"
    using a by simp
  have same: "velocityRef (startAnimation False (r1, r2, r3, r4) e t) = (?vx, ?vy, ?vr)
      \<and> (\<forall>D. image_mset (\<lambda>d. velocityRef (startAnimation False d e t)) D
               = image_mset (\<lambda>(d1, d2, d3, d4).
                     velocityRef (speakRandom True (r0, d1, d2, d3, d4) s)) D)"
    if "canvasRef t = Some c"
      and "getDrawingBoundingBox (pixels c) (cv_width c) (cv_height c) = Some box"
    for t c box e
  proof -
    have "(\<lambda>d. velocityRef (startAnimation False d e t))
        = (\<lambda>(d1, d2, d3, d4). velocityRef (speakRandom True (r0, d1, d2, d3, d4) s))"
      by (rule ext) (simp add: startAnimation_velocity [OF that] speakRandom_def split: prod.splits)
    then show ?thesis using startAnimation_velocity [OF that] by simp
  qed
  have off: "speakRandom False (r0, r1, r2, r3, r4) s = s"
    by (simp add: speakRandom_def)
  from call pos rng rot same off show ?thesis
    by (intro exI [of _ ?vx] exI [of _ ?vy] exI [of _ ?vr]) blast
qed

theorem speakRandom_rerolls_witness:
  "randomDraw (1 / 2) \<and> randomDraw (1 / 4)
   \<and> speakRandom True (3 / 8, 1 / 2, 1 / 4, 1 / 2, 3 / 4) bouncing
       = bouncing\<lparr>spoken := [3], velocityRef := (0, - 3, 5404319552844596 / 2 ^ 55)\<rparr>
   \<and> imgPosRef (speakRandom True (3 / 8, 1 / 2, 1 / 4, 1 / 2, 3 / 4) bouncing) = (560, 20, 0)
   \<and> velocityRef (startAnimation False (1 / 2, 1 / 4, 1 / 2, 3 / 4) (0, 0, 0, 0, 0) drawn)
       = (0, - 3, 5404319552844596 / 2 ^ 55)
   \<and> speakRandom False (3 / 8, 1 / 2, 1 / 4, 1 / 2, 3 / 4) bouncing = bouncing"
proof -
  note r = randomDraw_examples(1,2)
  from strokeExample_box obtain box where
    box: "getDrawingBoundingBox strokeExample 600 400 = Some box" by blast
  have cv: "canvasRef drawn = Some \<lparr>cv_width = 600, cv_height = 400, pixels = strokeExample\<rparr>"
    by (rule drawn_facts)
  from speakRandom_rerolls [OF r(1) r(2) r(1), of "3 / 8" "3 / 4" bouncing]
  obtain vx vy vr where v:
    "speakRandom True (3 / 8, 1 / 2, 1 / 4, 1 / 2, 3 / 4) bouncing
       = bouncing\<lparr>spoken := spoken bouncing @ [nat \<lfloor>times_double (3 / 8) 8\<rfloor>],
                  velocityRef := (vx, vy, vr)\<rparr>"
    "imgPosRef (speakRandom True (3 / 8, 1 / 2, 1 / 4, 1 / 2, 3 / 4) bouncing) = imgPosRef bouncing"
    "\<forall>t c box e. canvasRef t = Some c
       \<and> getDrawingBoundingBox (pixels c) (cv_width c) (cv_height c) = Some box
       \<longrightarrow> velocityRef (startAnimation False (1 / 2, 1 / 4, 1 / 2, 3 / 4) e t) = (vx, vy, vr)
           \<and> (\<forall>D. image_mset (\<lambda>d. velocityRef (startAnimation False d e t)) D
                    = image_mset (\<lambda>(d1, d2, d3, d4).
                          velocityRef (speakRandom True (3 / 8, d1, d2, d3, d4) bouncing)) D)"
    "speakRandom False (3 / 8, 1 / 2, 1 / 4, 1 / 2, 3 / 4) bouncing = bouncing"
    by blast
  let ?c = "\<lparr>cv_width = 600, cv_height = 400, pixels = strokeExample\<rparr>"
  have "canvasRef drawn = Some ?c
      \<and> getDrawingBoundingBox (pixels ?c) (cv_width ?c) (cv_height ?c) = Some box"
    using cv box by simp
  with v(3)
  have sa: "velocityRef (startAnimation False (1 / 2, 1 / 4, 1 / 2, 3 / 4) (0, 0, 0, 0, 0) drawn)
      = (vx, vy, vr)"
    by blast
  have "velocityRef (speakRandom True (3 / 8, 1 / 2, 1 / 4, 1 / 2, 3 / 4) bouncing)
      = (0, - 3, 5404319552844596 / 2 ^ 55)"
    unfolding speakRandom_velocity roll_example(1-3) by (rule refl)
  with v(1) have vals: "(vx, vy, vr) = (0, - 3, 5404319552844596 / 2 ^ 55)" by simp
  have b: "spoken bouncing = []" "imgPosRef bouncing = (560, 20, 0)"
    by (simp_all add: bouncing_def startup_def setupCanvas_def initial_def Let_def)
  show ?thesis
    using r v(1,2,4) sa vals b roll_example(4) by simp
qed

text \<open>
  C9 as stated fails in two places. A call without the speech collaborator leaves the
  velocity as it was, where a call with it sets a new one from the same draws. And at
  the draw \<open>1 - 2\<^sup>-\<^sup>5\<^sup>3\<close> the magnitude of \<open>vr\<close> is \<open>0.25\<close>, which is not below
  \<open>0.25\<close>: the sum \<^verbatim>\<open>Math.random() * 0.2 + 0.05\<close> is then half-way between two
  binary64 numbers and is rounded up.
\<close>

theorem speakRandom_counterexample:
  "velocityRef bouncing = (5, - 3, 1 / 10)
   \<and> velocityRef (speakRandom False (3 / 8, 1 / 2, 1 / 4, 1 / 2, 3 / 4) bouncing) = (5, - 3, 1 / 10)
   \<and> velocityRef (speakRandom True (3 / 8, 1 / 2, 1 / 4, 1 / 2, 3 / 4) bouncing)
       = (0, - 3, 5404319552844596 / 2 ^ 55)
   \<and> randomDraw (1 - 1 / 2 ^ 53)
   \<and> velocityRef (speakRandom True (3 / 8, 1 / 2, 1 / 4, 1 - 1 / 2 ^ 53, 3 / 4) bouncing)
       = (0, - 3, 1 / 4)
   \<and> \<not> \<bar>1 / 4 :: real\<bar> < 0.25"
proof -
  have "times_double (1 - 1 / 2 ^ 53) (double 0.2) = 7205759403792793 / 2 ^ 55"
    unfolding times_double_def double_fifth' by (rule double_below_fifth)
  then have "plus_double (times_double (1 - 1 / 2 ^ 53) (double 0.2)) (double 0.05) = 1 / 4"
    unfolding plus_double_def double_twentieth' by (simp only: double_tie_quarter)
  then have m: "plus_double (times_double (1 - 1 / 2 ^ 53) (double 0.2)) (double 0.05) = 1 / 4" .
  have sgn: "(if (3 / 4 :: real) > 0.5 then 1 else - 1) = (1 :: real)" by simp
  have "times_double (plus_double (times_double (1 - 1 / 2 ^ 53) (double 0.2)) (double 0.05)) 1
      = double (plus_double (times_double (1 - 1 / 2 ^ 53) (double 0.2)) (double 0.05) * 1)"
    by (rule times_double_def)
  also have "\<dots> = double (1 / 4)" by (simp only: m mult_1_right)
  also have "\<dots> = 1 / 4" by (rule double_quarter)
  finally have top: "times_double (plus_double (times_double (1 - 1 / 2 ^ 53) (double 0.2)) (double 0.05))
      (if (3 / 4 :: real) > 0.5 then 1 else - 1) = 1 / 4"
    unfolding sgn .
  have b: "velocityRef bouncing = (5, - 3, 1 / 10)" by (simp add: bouncing_def)
  have off: "velocityRef (speakRandom False (3 / 8, 1 / 2, 1 / 4, 1 / 2, 3 / 4) bouncing)
      = (5, - 3, 1 / 10)" by (simp add: speakRandom_def b)
  have on: "velocityRef (speakRandom True (3 / 8, 1 / 2, 1 / 4, 1 / 2, 3 / 4) bouncing)
      = (0, - 3, 5404319552844596 / 2 ^ 55)"
    unfolding speakRandom_velocity roll_example(1-3) by (rule refl)
  have edge: "velocityRef (speakRandom True (3 / 8, 1 / 2, 1 / 4, 1 - 1 / 2 ^ 53, 3 / 4) bouncing)
      = (0, - 3, 1 / 4)"
    unfolding speakRandom_velocity roll_example(1,2) top by (rule refl)
  from b off on edge randomDraw_examples(3) show ?thesis by simp
qed

end
